theory Spec2Isabelle
  imports Complex_Main "HOL-Library.AList" "HOL-Library.Multiset" "HOL-Library.Product_Lexorder"
begin

section \<open>The graph of the grid\<close>

text \<open>
  The wrappers of \<^verbatim>\<open>GraphOfGridWrappers.hpp\<close> work on a \<^verbatim>\<open>GraphOfGrid<Dune::CpGrid>\<close>.
  The class itself (\<^verbatim>\<open>opm/grid/GraphOfGrid.hpp\<close>) is not among the sources; its data and
  the members the wrappers call are modelled from the specification and from the way the
  wrappers and the tests use them.

  C++ \<^verbatim>\<open>int\<close> values are modelled as \<^typ>\<open>int\<close>: ids, counts and statuses stay far inside the
  32-bit range for every grid the code is run on. (The one product the wrappers compute,
  the size of the cartesian box, is modelled with its wrap-around.) The \<^verbatim>\<open>float\<close> weights
  are modelled as \<^typ>\<open>real\<close>, as the data model of the specification has them; the wrappers
  only copy them.
\<close>

datatype error = AssertionFailure | OutOfRange | LogicError | LengthError

text \<open>
  Modelled from the spec: the vertex payload of \<^verbatim>\<open>GraphOfGrid\<close> (weight, owning process,
  adjacency). The adjacency is a \<^verbatim>\<open>std::map<int,float>\<close>: an association list in key order.
\<close>

record VertexProperties =
  weight :: real
  nproc :: int
  edges :: "(int \<times> real) list"

text \<open>
  Modelled from the spec: the part of \<^verbatim>\<open>Dune::CpGrid\<close> that \<^verbatim>\<open>addFutureConnectionWells\<close>
  reads: the logical cartesian size and, for each active cell, its cartesian index
  (\<^verbatim>\<open>globalCell()\<close>, which has \<^verbatim>\<open>numCells()\<close> entries).
\<close>

record CpGrid =
  logicalCartesianSize :: "int \<times> int \<times> int"
  globalCell :: "int list"

text \<open>
  Modelled from the spec: the graph is an unordered map from vertex id to vertex payload,
  here an association list in the map's iteration order; the well registry is a list of
  \<^verbatim>\<open>std::set<int>\<close>, each one a list in ascending order.
\<close>

record GraphOfGrid =
  vertices :: "(int \<times> VertexProperties) list"
  wells :: "int list list"
  grid :: CpGrid

text \<open>Modelled from the spec: \<^verbatim>\<open>size()\<close>, the number of live vertices.\<close>

definition gog_size :: "GraphOfGrid \<Rightarrow> int" where
  "gog_size g = int (length (vertices g))"

definition live :: "GraphOfGrid \<Rightarrow> int \<Rightarrow> bool" where
  "live g i = (map_of (vertices g) i \<noteq> None)"

text \<open>Modelled from the spec: \<^verbatim>\<open>numEdges(id)\<close>, with the sentinel -1 for an id that is not live.\<close>

definition gog_numEdges :: "GraphOfGrid \<Rightarrow> int \<Rightarrow> int" where
  "gog_numEdges g i =
     (case map_of (vertices g) i of None \<Rightarrow> - 1 | Some v \<Rightarrow> int (length (edges v)))"

text \<open>Modelled from the spec: \<^verbatim>\<open>edgeList(id)\<close> throws \<^verbatim>\<open>std::logic_error\<close> for an id that is not live.\<close>

definition edgeList :: "GraphOfGrid \<Rightarrow> int \<Rightarrow> error + (int \<times> real) list" where
  "edgeList g i =
     (case map_of (vertices g) i of None \<Rightarrow> Inl LogicError | Some v \<Rightarrow> Inr (edges v))"

text \<open>Modelled from the spec: \<^verbatim>\<open>getVertex(id)\<close> throws \<^verbatim>\<open>std::logic_error\<close> for an id that is not live.\<close>

definition getVertex :: "GraphOfGrid \<Rightarrow> int \<Rightarrow> error + VertexProperties" where
  "getVertex g i =
     (case map_of (vertices g) i of None \<Rightarrow> Inl LogicError | Some v \<Rightarrow> Inr v)"

definition getWells :: "GraphOfGrid \<Rightarrow> int list list" where
  "getWells g = wells g"

section \<open>Printing integers\<close>

text \<open>What \<^verbatim>\<open>operator<<\<close> of an output stream writes for an integer: its decimal digits.\<close>

definition digit_char :: "nat \<Rightarrow> char" where
  "digit_char n = ''0123456789'' ! (n mod 10)"

fun show_nat :: "nat \<Rightarrow> string" where
  "show_nat n = (if n < 10 then [digit_char n] else show_nat (n div 10) @ [digit_char n])"

definition show_int :: "int \<Rightarrow> string" where
  "show_int i = (if i < 0 then CHR ''-'' # show_nat (nat (- i)) else show_nat (nat i))"

text \<open>
  Reading a decimal numeral: the number that a line of a log names. (Not part of the
  code; it says that what is printed identifies the number.)
\<close>

definition digit_val :: "char \<Rightarrow> nat" where
  "digit_val c = of_char c - 48"

definition read_nat :: "string \<Rightarrow> nat" where
  "read_nat ds = fold (\<lambda>c n. 10 * n + digit_val c) ds 0"

definition read_int :: "string \<Rightarrow> int" where
  "read_int ds =
     (case ds of
        [] \<Rightarrow> 0
      | c # cs \<Rightarrow> if c = CHR ''-'' then - int (read_nat cs) else int (read_nat ds))"

section \<open>The callbacks of the partitioner\<close>

definition ZOLTAN_OK :: int where
  "ZOLTAN_OK = 1"

definition ZOLTAN_FATAL :: int where
  "ZOLTAN_FATAL = 0"

text \<open>
  The memory a callback reaches through its pointer parameters, one field per parameter:
  the graph behind \<^verbatim>\<open>pGraph\<close>, each buffer as the cells at offsets 0, 1, 2, ... from the
  pointer, the status behind \<^verbatim>\<open>err\<close>, and the lines given to \<^verbatim>\<open>OpmLog::error\<close>.
  The callbacks take raw pointers and never check a length: that the buffers are large
  enough is the caller's duty.
\<close>

record zoltan_mem =
  pGraph :: GraphOfGrid
  gIDs :: "nat \<Rightarrow> int"
  lIDs :: "nat \<Rightarrow> int"
  objWeights :: "nat \<Rightarrow> real"
  numEdges :: "nat \<Rightarrow> int"
  nborGIDs :: "nat \<Rightarrow> int"
  nborProc :: "nat \<Rightarrow> int"
  edgeWeights :: "nat \<Rightarrow> real"
  err :: int
  oplog :: "string list"

definition getGraphOfGridNumVertices :: "zoltan_mem \<Rightarrow> int \<times> zoltan_mem" where
  "getGraphOfGridNumVertices s = (gog_size (pGraph s), s\<lparr>err := ZOLTAN_OK\<rparr>)"

text \<open>The loop of \<^verbatim>\<open>getGraphOfGridVerticesList\<close> over the vertices of the graph, \<open>i\<close> counting.\<close>

fun verticesList_loop :: "(int \<times> VertexProperties) list \<Rightarrow> nat \<Rightarrow> zoltan_mem \<Rightarrow> zoltan_mem" where
  "verticesList_loop [] i s = s"
| "verticesList_loop (v # vs) i s =
     verticesList_loop vs (Suc i)
       (s\<lparr>gIDs := (gIDs s)(i := fst v), objWeights := (objWeights s)(i := weight (snd v))\<rparr>)"

definition getGraphOfGridVerticesList ::
    "int \<Rightarrow> int \<Rightarrow> int \<Rightarrow> zoltan_mem \<Rightarrow> error + zoltan_mem" where
  "getGraphOfGridVerticesList dimGlobalID dimLocalID weightDim s =
     (if dimGlobalID \<noteq> 1 then Inl AssertionFailure
      else if weightDim \<noteq> 1 then Inl AssertionFailure
      else Inr ((verticesList_loop (vertices (pGraph s)) 0 s)\<lparr>err := ZOLTAN_OK\<rparr>))"

definition numEdges_message :: "int \<Rightarrow> string" where
  "numEdges_message gid =
     ''getGraphOfGridNumEdges error: Vertex with ID '' @ show_int gid @ '' is not in graph.''"

function numEdges_loop :: "int \<Rightarrow> nat \<Rightarrow> zoltan_mem \<Rightarrow> zoltan_mem" where
  "numEdges_loop numCells i s =
     (if int i < numCells then
        (let nE = gog_numEdges (pGraph s) (gIDs s i) in
         if nE = - 1 then
           s\<lparr>oplog := oplog s @ [numEdges_message (gIDs s i)], err := ZOLTAN_FATAL\<rparr>
         else numEdges_loop numCells (Suc i) (s\<lparr>numEdges := (numEdges s)(i := nE)\<rparr>))
      else s\<lparr>err := ZOLTAN_OK\<rparr>)"
  by pat_completeness auto
termination
  by (relation "measure (\<lambda>(numCells, i, s). nat (numCells - int i))") auto

definition getGraphOfGridNumEdges :: "int \<Rightarrow> int \<Rightarrow> int \<Rightarrow> zoltan_mem \<Rightarrow> error + zoltan_mem" where
  "getGraphOfGridNumEdges dimGlobalID dimLocalID numCells s =
     (if dimGlobalID \<noteq> 1 then Inl AssertionFailure
      else Inr (numEdges_loop numCells 0 s))"

definition edgeList_message :: "int \<Rightarrow> nat \<Rightarrow> int \<Rightarrow> string" where
  "edgeList_message expected found gid =
     ''getGraphOfGridEdgeList error: Edge number disagreement''
       @ '' between Zoltan ('' @ show_int expected @ '') and Graph (''
       @ show_nat found @ '') for vertex with ID '' @ show_int gid @ [CHR 0x0A]"

text \<open>The inner loop of \<^verbatim>\<open>getGraphOfGridEdgeList\<close> over one edge list; \<open>pos\<close> is the counter \<^verbatim>\<open>id\<close> of the source.\<close>

fun emit_edges :: "(int \<times> real) list \<Rightarrow> nat \<Rightarrow> zoltan_mem \<Rightarrow> error + nat \<times> zoltan_mem" where
  "emit_edges [] pos s = Inr (pos, s)"
| "emit_edges (e # es) pos s =
     (case getVertex (pGraph s) (fst e) of
        Inl x \<Rightarrow> Inl x
      | Inr v \<Rightarrow>
          emit_edges es (Suc pos)
            (s\<lparr>nborGIDs := (nborGIDs s)(pos := fst e),
               nborProc := (nborProc s)(pos := nproc v),
               edgeWeights := (edgeWeights s)(pos := snd e)\<rparr>))"

function edgeList_loop :: "int \<Rightarrow> nat \<Rightarrow> nat \<Rightarrow> zoltan_mem \<Rightarrow> error + zoltan_mem" where
  "edgeList_loop numCells i pos s =
     (if int i < numCells then
        (case edgeList (pGraph s) (gIDs s i) of
           Inl x \<Rightarrow> Inl x
         | Inr eList \<Rightarrow>
             if int (length eList) \<noteq> numEdges s i then
               Inr (s\<lparr>oplog := oplog s @ [edgeList_message (numEdges s i) (length eList) (gIDs s i)],
                      err := ZOLTAN_FATAL\<rparr>)
             else
               (case emit_edges eList pos s of
                  Inl x \<Rightarrow> Inl x
                | Inr r \<Rightarrow> edgeList_loop numCells (Suc i) (fst r) (snd r)))
      else Inr (s\<lparr>err := ZOLTAN_OK\<rparr>))"
  by pat_completeness auto
termination
  by (relation "measure (\<lambda>(numCells, i, pos, s). nat (numCells - int i))") auto

definition getGraphOfGridEdgeList ::
    "int \<Rightarrow> int \<Rightarrow> int \<Rightarrow> int \<Rightarrow> zoltan_mem \<Rightarrow> error + zoltan_mem" where
  "getGraphOfGridEdgeList dimGlobalID dimLocalID numCells weightDim s =
     (if dimGlobalID \<noteq> 1 then Inl AssertionFailure
      else if weightDim \<noteq> 1 then Inl AssertionFailure
      else edgeList_loop numCells 0 0 s)"

declare show_nat.simps [simp del]
declare numEdges_loop.simps [simp del]
declare edgeList_loop.simps [simp del]

section \<open>A small graph to compute on\<close>

text \<open>
  The graph of a cartesian grid of 2 x 2 x 1 cells: four vertices of weight 1 on process 0,
  four edges of weight 1, no wells.
\<close>

definition unit_vertex :: "(int \<times> real) list \<Rightarrow> VertexProperties" where
  "unit_vertex es = \<lparr>weight = 1, nproc = 0, edges = es\<rparr>"

definition square_graph :: GraphOfGrid where
  "square_graph =
     \<lparr>vertices =
        [(0, unit_vertex [(1, 1), (2, 1)]),
         (1, unit_vertex [(0, 1), (3, 1)]),
         (2, unit_vertex [(0, 1), (3, 1)]),
         (3, unit_vertex [(1, 1), (2, 1)])],
      wells = [],
      grid = \<lparr>logicalCartesianSize = (2, 2, 1), globalCell = [0, 1, 2, 3]\<rparr>\<rparr>"

text \<open>Memory around the graph: every buffer zeroed, the status not yet set, nothing logged.\<close>

definition fresh_mem :: "GraphOfGrid \<Rightarrow> zoltan_mem" where
  "fresh_mem g =
     \<lparr>pGraph = g, gIDs = (\<lambda>_. 0), lIDs = (\<lambda>_. 0), objWeights = (\<lambda>_. 0),
      numEdges = (\<lambda>_. 0), nborGIDs = (\<lambda>_. 0), nborProc = (\<lambda>_. 0),
      edgeWeights = (\<lambda>_. 0), err = - 1, oplog = []\<rparr>"

text \<open>A batch of three ids for the square: 3 is a vertex, 7 is not, 0 is one again.\<close>

definition batch_mem :: zoltan_mem where
  "batch_mem =
     (fresh_mem square_graph)\<lparr>gIDs := (\<lambda>j. if j = 0 then 3 else if j = 1 then 7 else 0)\<rparr>"

text \<open>A batch of one id for the square, -12, which is no vertex.\<close>

definition negative_mem :: zoltan_mem where
  "negative_mem = (fresh_mem square_graph)\<lparr>gIDs := (\<lambda>j. - 12)\<rparr>"

section \<open>Sequences of callback calls\<close>

text \<open>
  One call of a callback by the partitioner, with the arguments it passes by value and the
  contents of the arrays it passes as input (\<open>gIDs\<close>, and \<open>numEdges\<close> for the edge list).
\<close>

datatype zoltan_call =
    NumVertices
  | VerticesList int int int
  | NumEdges int int int "nat \<Rightarrow> int"
  | EdgeList int int int int "nat \<Rightarrow> int" "nat \<Rightarrow> int"

fun run_call :: "zoltan_call \<Rightarrow> zoltan_mem \<Rightarrow> error + zoltan_mem" where
  "run_call NumVertices s = Inr (snd (getGraphOfGridNumVertices s))"
| "run_call (VerticesList dimGlobalID dimLocalID weightDim) s =
     getGraphOfGridVerticesList dimGlobalID dimLocalID weightDim s"
| "run_call (NumEdges dimGlobalID dimLocalID numCells ids) s =
     getGraphOfGridNumEdges dimGlobalID dimLocalID numCells (s\<lparr>gIDs := ids\<rparr>)"
| "run_call (EdgeList dimGlobalID dimLocalID numCells weightDim ids counts) s =
     getGraphOfGridEdgeList dimGlobalID dimLocalID numCells weightDim
       (s\<lparr>gIDs := ids, numEdges := counts\<rparr>)"

text \<open>A sequence of calls ends at the first call that does not return.\<close>

fun run_calls :: "zoltan_call list \<Rightarrow> zoltan_mem \<Rightarrow> error + zoltan_mem" where
  "run_calls [] s = Inr s"
| "run_calls (c # cs) s =
     (case run_call c s of Inl x \<Rightarrow> Inl x | Inr s' \<Rightarrow> run_calls cs s')"

section \<open>What a batch of edge lists looks like\<close>

text \<open>
  The process number and the edge list the graph holds for an id, and the edge lists of
  the positions \<open>i, ..., k - 1\<close> of a batch one after the other. These say what the edge
  list callback is expected to write; they are not part of the code.
\<close>

definition nproc_of :: "GraphOfGrid \<Rightarrow> int \<Rightarrow> int" where
  "nproc_of g n = (case map_of (vertices g) n of None \<Rightarrow> 0 | Some v \<Rightarrow> nproc v)"

definition edges_of :: "GraphOfGrid \<Rightarrow> int \<Rightarrow> (int \<times> real) list" where
  "edges_of g n = (case map_of (vertices g) n of None \<Rightarrow> [] | Some v \<Rightarrow> edges v)"

definition batch_edges :: "GraphOfGrid \<Rightarrow> (nat \<Rightarrow> int) \<Rightarrow> nat \<Rightarrow> nat \<Rightarrow> (int \<times> real) list" where
  "batch_edges g ids i k = concat (map (\<lambda>j. edges_of g (ids j)) [i..<k])"

text \<open>The memory after the edges \<open>es\<close> have been written from position \<open>pos\<close> on.\<close>

definition emitted :: "(int \<times> real) list \<Rightarrow> nat \<Rightarrow> zoltan_mem \<Rightarrow> zoltan_mem" where
  "emitted es pos s =
     s\<lparr>nborGIDs :=
         (\<lambda>j. if pos \<le> j \<and> j < pos + length es then fst (es ! (j - pos)) else nborGIDs s j),
       nborProc :=
         (\<lambda>j. if pos \<le> j \<and> j < pos + length es then nproc_of (pGraph s) (fst (es ! (j - pos)))
              else nborProc s j),
       edgeWeights :=
         (\<lambda>j. if pos \<le> j \<and> j < pos + length es then snd (es ! (j - pos))
              else edgeWeights s j)\<rparr>"

text \<open>Every edge of the graph leads to a live vertex.\<close>

definition closed_graph :: "GraphOfGrid \<Rightarrow> bool" where
  "closed_graph g = (\<forall>v \<in> set (vertices g). \<forall>e \<in> set (edges (snd v)). live g (fst e))"

text \<open>A batch of two ids for the square, 7 (not a vertex) and 3, with expected counts 0 and 5.\<close>

definition stale_mem :: zoltan_mem where
  "stale_mem =
     (fresh_mem square_graph)
       \<lparr>gIDs := (\<lambda>j. if j = 0 then 7 else 3), numEdges := (\<lambda>j. if j = 0 then 0 else 5)\<rparr>"

text \<open>A batch of one id for the square, 1, with the expected count -3.\<close>

definition short_count_mem :: zoltan_mem where
  "short_count_mem = (fresh_mem square_graph)\<lparr>gIDs := (\<lambda>j. 1), numEdges := (\<lambda>j. - 3)\<rparr>"

text \<open>A batch of three ids for the square, 3, 0 and 1, with expected counts 2, 5 and 2.\<close>

definition wrong_count_mem :: zoltan_mem where
  "wrong_count_mem =
     (fresh_mem square_graph)
       \<lparr>gIDs := (\<lambda>j. if j = 0 then 3 else if j = 1 then 0 else 1),
        numEdges := (\<lambda>j. if j = 1 then 5 else 2)\<rparr>"

text \<open>
  The four callbacks on the square, one after the other; the last one is given a wrong
  expected count (8) for the second id of its batch.
\<close>

definition square_calls :: "zoltan_call list" where
  "square_calls =
     [NumVertices, VerticesList 1 1 1,
      NumEdges 1 1 2 (\<lambda>j. if j = 0 then 3 else 0),
      EdgeList 1 1 2 1 (\<lambda>j. if j = 0 then 3 else 0) (\<lambda>j. if j = 0 then 2 else 8)]"

section \<open>Expanding the import and export lists\<close>

text \<open>
  A tuple of the lists is \<^verbatim>\<open>std::tuple<int,int,char,int>\<close> or \<^verbatim>\<open>std::tuple<int,int,char>\<close>:
  here a pair of the global id (\<^verbatim>\<open>std::get<0>\<close>) and the remaining fields. Pairs are ordered
  lexicographically, as \<^verbatim>\<open>operator<\<close> orders tuples.

  \<^verbatim>\<open>wellMap\<close> maps the first id of a well to the range of its ids, here to the well itself.
  The first id of an empty set does not exist (\<^verbatim>\<open>*well.begin()\<close> is undefined); the
  registry holds no empty well, and the model keeps the map as it is there.
\<close>

fun build_wellMap :: "int list list \<Rightarrow> (int \<times> int list) list \<Rightarrow> (int \<times> int list) list" where
  "build_wellMap [] wellMap = wellMap"
| "build_wellMap (well # ws) wellMap =
     build_wellMap ws (case well of [] \<Rightarrow> wellMap | r # _ \<Rightarrow> AList.update r well wellMap)"

text \<open>
  The pass over \<^verbatim>\<open>cellList\<close>: a tuple whose id is a key of \<^verbatim>\<open>wellMap\<close> adds one tuple for
  every other id of the well and erases the key; the pass ends early once the map is empty.
\<close>

fun expand_loop ::
    "(int \<times> int list) list \<Rightarrow> (int \<times> 'a) list \<Rightarrow> (int \<times> 'a) list \<Rightarrow> (int \<times> 'a) list" where
  "expand_loop wellMap [] addToList = addToList"
| "expand_loop wellMap (cellProperties # rest) addToList =
     (case map_of wellMap (fst cellProperties) of
        Some well \<Rightarrow>
          (let addToList' =
                 addToList @
                   map (\<lambda>gID. (gID, snd cellProperties))
                     (filter (\<lambda>gID. gID \<noteq> fst cellProperties) well);
               wellMap' = AList.delete (fst cellProperties) wellMap
           in if wellMap' = [] then addToList' else expand_loop wellMap' rest addToList')
      | None \<Rightarrow> if wellMap = [] then addToList else expand_loop wellMap rest addToList)"

text \<open>
  \<^verbatim>\<open>std::inplace_merge\<close> of two consecutive ranges under \<^verbatim>\<open>operator<\<close>, as the GNU library
  does it with its temporary buffer. (The C++ standard says what the result is only for
  ranges that are sorted under \<^verbatim>\<open>operator<\<close>; the lists here need not be, so the model follows
  the library step by step.)

  \<^verbatim>\<open>__move_merge_adaptive\<close> merges from the front: it takes the head of the second range if
  that is less than the head of the first, and the head of the first otherwise.
\<close>

fun move_merge_adaptive :: "'a::linorder list \<Rightarrow> 'a list \<Rightarrow> 'a list" where
  "move_merge_adaptive [] ys = ys"
| "move_merge_adaptive xs [] = xs"
| "move_merge_adaptive (x # xs) (y # ys) =
     (if y < x then y # move_merge_adaptive (x # xs) ys
      else x # move_merge_adaptive xs (y # ys))"

text \<open>
  \<^verbatim>\<open>__move_merge_adaptive_backward\<close> merges from the back: it puts the last element of the
  first range last if the last element of the second range is less than it, and the last
  element of the second range otherwise. Here both ranges and the result are read from
  their last element on.
\<close>

fun move_merge_adaptive_backward :: "'a::linorder list \<Rightarrow> 'a list \<Rightarrow> 'a list" where
  "move_merge_adaptive_backward [] ys = ys"
| "move_merge_adaptive_backward xs [] = xs"
| "move_merge_adaptive_backward (x # xs) (y # ys) =
     (if y < x then x # move_merge_adaptive_backward xs (y # ys)
      else y # move_merge_adaptive_backward (x # xs) ys)"

text \<open>
  \<^verbatim>\<open>__inplace_merge\<close> returns at once if one of the ranges is empty; \<^verbatim>\<open>__merge_adaptive\<close> copies
  the shorter range into the buffer and merges from the front if the first range is not
  the longer one, and from the back if it is.
\<close>

definition inplace_merge :: "'a::linorder list \<Rightarrow> 'a list \<Rightarrow> 'a list" where
  "inplace_merge xs ys =
     (if xs = [] \<or> ys = [] then xs @ ys
      else if length xs \<le> length ys then move_merge_adaptive xs ys
      else rev (move_merge_adaptive_backward (rev xs) (rev ys)))"

text \<open>
  \<^verbatim>\<open>std::sort\<close> with the comparison of the ids is modelled by \<^const>\<open>sort_key\<close> on the id.
  \<^verbatim>\<open>std::sort\<close> is not stable: the two can differ in the order of added tuples with equal
  ids, which wells without a common cell never produce. What is proved of the merged
  list below holds for every list with the tuples of \<^verbatim>\<open>addToList\<close> in ascending order of
  their ids (lemma \<open>inplace_merge_any_order\<close>).
\<close>

definition extendImportExportList ::
    "GraphOfGrid \<Rightarrow> (int \<times> 'a::linorder) list \<Rightarrow> (int \<times> 'a) list" where
  "extendImportExportList gog cellList =
     (let wellMap = build_wellMap (getWells gog) [];
          addToList = expand_loop wellMap cellList [];
          addToList = sort_key fst addToList
      in inplace_merge cellList addToList)"

text \<open>
  The well of the registry whose first id is \<open>r\<close>, and the tuples a tuple of the list stands
  for besides itself: one for every other id of the well it represents, with its own
  remaining fields. These say what the expansion is expected to add; they are not part
  of the code.
\<close>

definition well_of :: "int list list \<Rightarrow> int \<Rightarrow> int list option" where
  "well_of ws r = find (\<lambda>w. w \<noteq> [] \<and> hd w = r) ws"

definition members_added :: "int list list \<Rightarrow> int \<times> 'a \<Rightarrow> (int \<times> 'a) list" where
  "members_added ws t =
     (case well_of ws (fst t) of None \<Rightarrow> [] | Some w \<Rightarrow> map (\<lambda>m. (m, snd t)) (tl w))"

text \<open>
  The registry as the expansion needs it: every well a non-empty set in ascending order,
  no two wells with the same first id.
\<close>

definition wells_ok :: "int list list \<Rightarrow> bool" where
  "wells_ok ws = ((\<forall>w \<in> set ws. w \<noteq> [] \<and> sorted_wrt (<) w) \<and> distinct (map hd ws))"

text \<open>
  A row of twelve cells, 0 to 11, after the wells {0, 1, 2} and {5, 8, 11} have been
  contracted: the wells of the expansion test on the simplest grid that has them. The
  import list of the test has the tuples of the ids 0, 3 and 5 (local id, attribute and
  rank as numbers).
\<close>

definition row_graph :: GraphOfGrid where
  "row_graph =
     \<lparr>vertices =
        [(0, \<lparr>weight = 3, nproc = 0, edges = [(3, 1)]\<rparr>),
         (3, unit_vertex [(0, 1), (4, 1)]),
         (4, unit_vertex [(3, 1), (5, 1)]),
         (5, \<lparr>weight = 3, nproc = 0, edges = [(4, 1), (6, 1), (7, 1), (9, 1), (10, 1)]\<rparr>),
         (6, unit_vertex [(5, 1), (7, 1)]),
         (7, unit_vertex [(5, 1), (6, 1)]),
         (9, unit_vertex [(5, 1), (10, 1)]),
         (10, unit_vertex [(5, 1), (9, 1)])],
      wells = [[0, 1, 2], [5, 8, 11]],
      grid = \<lparr>logicalCartesianSize = (12, 1, 1), globalCell = [0, 1, 2, 3, 4, 5, 6, 7, 8, 9, 10, 11]\<rparr>\<rparr>"

definition import_list :: "(int \<times> int \<times> int \<times> int) list" where
  "import_list = [(0, 1, 0, 1), (3, 4, 1, 2), (5, 0, 1, 3)]"

text \<open>
  A longer list for the same graph, in ascending order of the ids but not of the whole
  tuples (two tuples of the id 3): with five tuples against four added ones the merge
  runs from the back.
\<close>

definition long_import_list :: "(int \<times> int \<times> int \<times> int) list" where
  "long_import_list = [(0, 1, 0, 1), (3, 4, 1, 2), (3, 2, 1, 2), (4, 0, 0, 0), (5, 0, 1, 3)]"

text \<open>
  What one tuple adds while \<open>M\<close> is the map of the wells still to be expanded (used in
  the proofs only).
\<close>

definition expansion :: "(int \<rightharpoonup> int list) \<Rightarrow> int \<times> 'a \<Rightarrow> (int \<times> 'a) list" where
  "expansion M t = (case M (fst t) of None \<Rightarrow> []
     | Some w \<Rightarrow> map (\<lambda>m. (m, snd t)) (filter (\<lambda>m. m \<noteq> fst t) w))"

section \<open>Contraction of vertices\<close>

text \<open>
  What the containers of the graph guarantee: the map of the vertices has every id once,
  and every adjacency map has its keys once, in ascending order.
\<close>

definition graph_ok :: "GraphOfGrid \<Rightarrow> bool" where
  "graph_ok g =
     (distinct (map fst (vertices g))
      \<and> (\<forall>v \<in> set (vertices g). sorted_wrt (<) (map fst (edges (snd v)))))"

text \<open>The weight of the edge from \<open>u\<close> to \<open>v\<close>, if \<open>u\<close> is a vertex and has that edge.\<close>

definition edgeWeight :: "GraphOfGrid \<Rightarrow> int \<Rightarrow> int \<Rightarrow> real option" where
  "edgeWeight g u v =
     (case map_of (vertices g) u of None \<Rightarrow> None | Some p \<Rightarrow> map_of (edges p) v)"

definition vertexWeight :: "GraphOfGrid \<Rightarrow> int \<Rightarrow> real option" where
  "vertexWeight g u = map_option weight (map_of (vertices g) u)"

definition totalWeight :: "GraphOfGrid \<Rightarrow> real" where
  "totalWeight g = sum_list (map (\<lambda>v. weight (snd v)) (vertices g))"

text \<open>
  The weight of an edge that stands for two edges, each of which may be missing: the sum
  if both are there, the one that is there otherwise.
\<close>

fun joined :: "real option \<Rightarrow> real option \<Rightarrow> real option" where
  "joined (Some x) (Some y) = Some (x + y)"
| "joined (Some x) None = Some x"
| "joined None y = y"

text \<open>Removing the key \<open>k\<close> from an adjacency map, and adding the weight \<open>w\<close> under \<open>k\<close>.\<close>

definition erase_edge :: "int \<Rightarrow> (int \<times> real) list \<Rightarrow> (int \<times> real) list" where
  "erase_edge k es = filter (\<lambda>e. fst e \<noteq> k) es"

definition add_edge :: "int \<Rightarrow> real \<Rightarrow> (int \<times> real) list \<Rightarrow> (int \<times> real) list" where
  "add_edge k w es =
     (if k \<in> fst ` set es then map (\<lambda>e. if fst e = k then (k, snd e + w) else e) es
      else insort_key fst (k, w) es)"

definition merge_edges :: "(int \<times> real) list \<Rightarrow> (int \<times> real) list \<Rightarrow> (int \<times> real) list" where
  "merge_edges es fs = fold (\<lambda>e acc. add_edge (fst e) (snd e) acc) fs es"

text \<open>
  A vertex that had an edge to the removed id has it to the representative instead, its
  weight added to the weight of an edge to the representative it had already.
\<close>

definition redirect :: "int \<Rightarrow> int \<Rightarrow> VertexProperties \<Rightarrow> VertexProperties" where
  "redirect removed rep v =
     (case map_of (edges v) removed of
        None \<Rightarrow> v
      | Some w \<Rightarrow> v\<lparr>edges := add_edge rep w (erase_edge removed (edges v))\<rparr>)"

text \<open>
  Modelled from the spec: \<^verbatim>\<open>contractVertices(a, b)\<close> of \<^verbatim>\<open>GraphOfGrid\<close>, which is not among
  the sources. It follows the merge rule of the data model: defined only for two distinct
  live ids (a failure otherwise); the smaller id is the representative and the other id
  leaves the graph; the representative has the sum of the two weights, keeps its process
  number, and has the union of the two adjacencies without the edge between the two, the
  weights of a common neighbour added; every other vertex that had an edge to the removed
  id has it to the representative instead, the weights combined in the same way.
\<close>

definition contractVertices :: "int \<Rightarrow> int \<Rightarrow> GraphOfGrid \<Rightarrow> error + GraphOfGrid" where
  "contractVertices a b g =
     (case map_of (vertices g) a of
        None \<Rightarrow> Inl LogicError
      | Some va \<Rightarrow>
          (case map_of (vertices g) b of
             None \<Rightarrow> Inl LogicError
           | Some vb \<Rightarrow>
               if a = b then Inl LogicError
               else
                 (let rep = min a b;
                      removed = max a b;
                      vrep = (if a < b then va else vb);
                      vrem = (if a < b then vb else va);
                      merged =
                        vrep\<lparr>weight := weight vrep + weight vrem,
                             edges :=
                               merge_edges (erase_edge removed (edges vrep))
                                 (erase_edge rep (edges vrem))\<rparr>
                  in Inr (g\<lparr>vertices :=
                              map (\<lambda>v. if fst v = rep then (rep, merged)
                                       else (fst v, redirect removed rep (snd v)))
                                (filter (\<lambda>v. fst v \<noteq> removed) (vertices g))\<rparr>))))"

text \<open>A sequence of contractions; it ends at the first one that fails.\<close>

fun contractMany :: "(int \<times> int) list \<Rightarrow> GraphOfGrid \<Rightarrow> error + GraphOfGrid" where
  "contractMany [] g = Inr g"
| "contractMany (p # ps) g =
     (case contractVertices (fst p) (snd p) g of
        Inl e \<Rightarrow> Inl e
      | Inr g' \<Rightarrow> contractMany ps g')"

section \<open>The registry of wells\<close>

text \<open>Sets of ids as ascending lists: insertion of one id, union, and having a common id.\<close>

definition insert_id :: "int \<Rightarrow> int list \<Rightarrow> int list" where
  "insert_id x xs = (if x \<in> set xs then xs else insort x xs)"

definition union_ids :: "int list \<Rightarrow> int list \<Rightarrow> int list" where
  "union_ids xs ys = fold insert_id ys xs"

definition overlaps :: "int list \<Rightarrow> int list \<Rightarrow> bool" where
  "overlaps xs ys = (\<exists>x \<in> set xs. x \<in> set ys)"

text \<open>
  Modelled from the spec: step 1 of \<^verbatim>\<open>addWell\<close>, the scan of the registry. Every well that
  has an id in common with \<open>cellIds\<close> is united into \<open>cellIds\<close> and leaves the registry.
  The result is the united set, the wells that stay, and the wells that were taken.
\<close>

fun mergeOverlapping ::
    "int list \<Rightarrow> int list list \<Rightarrow> int list \<times> int list list \<times> int list list" where
  "mergeOverlapping cellIds [] = (cellIds, [], [])"
| "mergeOverlapping cellIds (w # ws) =
     (if overlaps cellIds w then
        (case mergeOverlapping (union_ids cellIds w) ws of
           (merged, kept, taken) \<Rightarrow> (merged, kept, w # taken))
      else
        (case mergeOverlapping cellIds ws of
           (merged, kept, taken) \<Rightarrow> (merged, w # kept, taken)))"

text \<open>
  Modelled from the spec: step 3 of \<^verbatim>\<open>addWell\<close>, \<^verbatim>\<open>contractVertices(representative, other)\<close>
  for every other member. The ids of a well that was taken in step 1 are contracted
  already: all but its representative have left the graph, and the specification's own
  scenarios (adding a well a second time, a well that grows, a well that bridges two) have
  \<^verbatim>\<open>addWell\<close> succeed on them. Such an id is passed over; for any other id that is not
  live the contraction fails.
\<close>

fun contractAll :: "int \<Rightarrow> int list \<Rightarrow> int list \<Rightarrow> GraphOfGrid \<Rightarrow> error + GraphOfGrid" where
  "contractAll rep [] contracted g = Inr g"
| "contractAll rep (other # others) contracted g =
     (if other \<in> set contracted \<and> \<not> live g other then contractAll rep others contracted g
      else
        (case contractVertices rep other g of
           Inl e \<Rightarrow> Inl e
         | Inr g' \<Rightarrow> contractAll rep others contracted g'))"

text \<open>
  Modelled from the spec: \<^verbatim>\<open>addWell(cellIds, checkIntersections)\<close> of \<^verbatim>\<open>GraphOfGrid\<close>, which is
  not among the sources. Step 1 is the scan above, made only when intersections are
  checked; a united set of fewer than two ids changes nothing (step 2); otherwise its
  members are contracted into the smallest one (step 3) and the united set is recorded
  as one well, in the place of the wells taken (step 4).
\<close>

definition addWell :: "int list \<Rightarrow> bool \<Rightarrow> GraphOfGrid \<Rightarrow> error + GraphOfGrid" where
  "addWell cellIds checkIntersections g =
     (case (if checkIntersections then mergeOverlapping cellIds (wells g)
            else (cellIds, wells g, [])) of
        (merged, kept, taken) \<Rightarrow>
          (case merged of
             [] \<Rightarrow> Inr g
           | rep # others \<Rightarrow>
               if others = [] then Inr g
               else
                 (case contractAll rep others (concat taken) g of
                    Inl e \<Rightarrow> Inl e
                  | Inr g' \<Rightarrow> Inr (g'\<lparr>wells := kept @ [merged]\<rparr>))))"

text \<open>No two wells of the registry have an id in common.\<close>

fun disjoint_wells :: "int list list \<Rightarrow> bool" where
  "disjoint_wells [] = True"
| "disjoint_wells (w # ws) = ((\<forall>w' \<in> set ws. \<not> overlaps w w') \<and> disjoint_wells ws)"

text \<open>The square after the vertices 0 and 1 have been contracted.\<close>

definition square_01 :: GraphOfGrid where
  "square_01 =
     \<lparr>vertices =
        [(0, \<lparr>weight = 2, nproc = 0, edges = [(2, 1), (3, 1)]\<rparr>),
         (2, unit_vertex [(0, 1), (3, 1)]),
         (3, unit_vertex [(0, 1), (2, 1)])],
      wells = [],
      grid = \<lparr>logicalCartesianSize = (2, 2, 1), globalCell = [0, 1, 2, 3]\<rparr>\<rparr>"

section \<open>Wells given by cartesian indices\<close>

text \<open>
  The size of the lookup is the product of the three logical sizes, computed in \<^verbatim>\<open>int\<close>:
  each product wraps around at 32 bits. A negative size, turned into the unsigned size
  of the vector, is more than a vector can hold: its constructor throws
  \<^verbatim>\<open>std::length_error\<close>.
\<close>

definition wrap_int :: "int \<Rightarrow> int" where
  "wrap_int x = (x + 2147483648) mod 4294967296 - 2147483648"

definition box_size :: "CpGrid \<Rightarrow> int" where
  "box_size g =
     (case logicalCartesianSize g of (nx, ny, nz) \<Rightarrow> wrap_int (wrap_int (nx * ny) * nz))"

text \<open>
  The lookup from cartesian index to compressed index: a vector of the size of the
  cartesian box, -1 everywhere, then \<open>i\<close> at the cartesian index of the active cell \<open>i\<close>,
  for \<open>i\<close> from 0 to \<^verbatim>\<open>numCells()\<close>.
  (The source writes with \<^verbatim>\<open>operator[]\<close>; a cartesian index outside the box is undefined
  there and no grid has one. The model leaves the vector as it is in that case.)
\<close>

fun fill_lookup :: "int list \<Rightarrow> nat \<Rightarrow> int list \<Rightarrow> int list" where
  "fill_lookup [] i table = table"
| "fill_lookup (c # cs) i table =
     fill_lookup cs (Suc i)
       (if 0 \<le> c \<and> c < int (length table) then table[nat c := int i] else table)"

definition cartesian_to_compressed :: "CpGrid \<Rightarrow> error + int list" where
  "cartesian_to_compressed g =
     (if box_size g < 0 then Inl LengthError
      else Inr (fill_lookup (globalCell g) 0 (replicate (nat (box_size g)) (- 1))))"

text \<open>
  The inner loop over the cells of one well: \<^verbatim>\<open>at\<close> throws \<^verbatim>\<open>std::out_of_range\<close> for an index
  outside the vector; the assertion, if assertions are compiled in (\<open>assertions\<close>, that is,
  no \<^verbatim>\<open>NDEBUG\<close>), fails for a cell that is not active; otherwise what the lookup holds goes
  into the set \<^verbatim>\<open>wellsgID\<close>, which is -1 for a cell that is not active when the assertion is
  compiled out.
\<close>

fun translate_cells :: "bool \<Rightarrow> int list \<Rightarrow> int list \<Rightarrow> int list \<Rightarrow> error + int list" where
  "translate_cells assertions table [] wellsgID = Inr wellsgID"
| "translate_cells assertions table (cell # cells) wellsgID =
     (if cell < 0 \<or> int (length table) \<le> cell then Inl OutOfRange
      else
        (let gID = table ! nat cell in
         if assertions \<and> gID = - 1 then Inl AssertionFailure
         else translate_cells assertions table cells (insert_id gID wellsgID)))"

text \<open>
  The outer loop over the wells (the parameter \<^verbatim>\<open>wells\<close> of the source, here \<open>named_wells\<close>),
  a map from name to set of cartesian indices, in the order in which the map yields them.
\<close>

fun addWells_loop ::
    "bool \<Rightarrow> int list \<Rightarrow> (string \<times> int list) list \<Rightarrow> bool \<Rightarrow> GraphOfGrid
      \<Rightarrow> error + GraphOfGrid" where
  "addWells_loop assertions table [] checkWellIntersections gog = Inr gog"
| "addWells_loop assertions table (w # ws) checkWellIntersections gog =
     (case translate_cells assertions table (snd w) [] of
        Inl e \<Rightarrow> Inl e
      | Inr wellsgID \<Rightarrow>
          (case addWell wellsgID checkWellIntersections gog of
             Inl e \<Rightarrow> Inl e
           | Inr gog' \<Rightarrow> addWells_loop assertions table ws checkWellIntersections gog'))"

definition addFutureConnectionWells ::
    "bool \<Rightarrow> GraphOfGrid \<Rightarrow> (string \<times> int list) list \<Rightarrow> bool \<Rightarrow> error + GraphOfGrid" where
  "addFutureConnectionWells assertions gog named_wells checkWellIntersections =
     (case cartesian_to_compressed (grid gog) of
        Inl e \<Rightarrow> Inl e
      | Inr table \<Rightarrow>
          addWells_loop assertions table named_wells checkWellIntersections gog)"

text \<open>
  What the translation is expected to do, said through the grid and not through the
  lookup (these are not part of the code). The compressed index of an active cell is its
  position in \<^verbatim>\<open>globalCell()\<close>; a cartesian index that is in \<^verbatim>\<open>globalCell()\<close> is the index of an
  active cell, and any other one stands for -1. A grid is as it should be if the size of
  its box, as the code computes it, is not negative and its active cells have different
  cartesian indices, all inside the box. And \<^verbatim>\<open>addWell\<close> on one set after the other ends
  at the first failure.
\<close>

fun index_of :: "int list \<Rightarrow> int \<Rightarrow> nat" where
  "index_of [] c = 0"
| "index_of (x # xs) c = (if x = c then 0 else Suc (index_of xs c))"

definition lookup_id :: "CpGrid \<Rightarrow> int \<Rightarrow> int" where
  "lookup_id g cell =
     (if cell \<in> set (globalCell g) then int (index_of (globalCell g) cell) else - 1)"

definition compressed_ids :: "CpGrid \<Rightarrow> int list \<Rightarrow> int list" where
  "compressed_ids g cells = fold (\<lambda>cell acc. insert_id (lookup_id g cell) acc) cells []"

definition grid_ok :: "CpGrid \<Rightarrow> bool" where
  "grid_ok g =
     (0 \<le> box_size g \<and> distinct (globalCell g)
      \<and> (\<forall>c \<in> set (globalCell g). 0 \<le> c \<and> c < box_size g))"

fun addWell_each :: "int list list \<Rightarrow> bool \<Rightarrow> GraphOfGrid \<Rightarrow> error + GraphOfGrid" where
  "addWell_each [] check gog = Inr gog"
| "addWell_each (w # ws) check gog =
     (case addWell w check gog of Inl e \<Rightarrow> Inl e | Inr gog' \<Rightarrow> addWell_each ws check gog')"

text \<open>
  A grid of 2 x 2 x 1 cells whose cell with cartesian index 2 is not active: three
  vertices, the compressed indices 0, 1, 2 of the cartesian indices 0, 1, 3.
\<close>

definition gap_graph :: GraphOfGrid where
  "gap_graph =
     \<lparr>vertices =
        [(0, unit_vertex [(1, 1)]),
         (1, unit_vertex [(0, 1), (2, 1)]),
         (2, unit_vertex [(1, 1)])],
      wells = [],
      grid = \<lparr>logicalCartesianSize = (2, 2, 1), globalCell = [0, 1, 3]\<rparr>\<rparr>"

text \<open>
  A box of 65536 x 65536 x 1 cells without an active cell: the product of the three sizes
  is \<open>2 ^ 32\<close>, which is 0 in \<^verbatim>\<open>int\<close>. And one of 46341 x 46341 x 1 cells, whose product is
  negative in \<^verbatim>\<open>int\<close>.
\<close>

definition wide_graph :: GraphOfGrid where
  "wide_graph =
     \<lparr>vertices = [], wells = [],
      grid = \<lparr>logicalCartesianSize = (65536, 65536, 1), globalCell = []\<rparr>\<rparr>"

definition negative_graph :: GraphOfGrid where
  "negative_graph =
     \<lparr>vertices = [], wells = [],
      grid = \<lparr>logicalCartesianSize = (46341, 46341, 1), globalCell = []\<rparr>\<rparr>"


text \<open>
  The graph of a cartesian grid of 2 x 2 x 2 cells, the one of the contraction test of the
  repository.
\<close>

definition cube_graph :: GraphOfGrid where
  "cube_graph =
     \<lparr>vertices =
        [(0, unit_vertex [(1, 1), (2, 1), (4, 1)]),
         (1, unit_vertex [(0, 1), (3, 1), (5, 1)]),
         (2, unit_vertex [(0, 1), (3, 1), (6, 1)]),
         (3, unit_vertex [(1, 1), (2, 1), (7, 1)]),
         (4, unit_vertex [(0, 1), (5, 1), (6, 1)]),
         (5, unit_vertex [(1, 1), (4, 1), (7, 1)]),
         (6, unit_vertex [(2, 1), (4, 1), (7, 1)]),
         (7, unit_vertex [(3, 1), (5, 1), (6, 1)])],
      wells = [],
      grid = \<lparr>logicalCartesianSize = (2, 2, 2), globalCell = [0, 1, 2, 3, 4, 5, 6, 7]\<rparr>\<rparr>"

section \<open>The vertex list\<close>

lemma verticesList_loop_eq:
  "verticesList_loop vs i s =
     s\<lparr>gIDs := (\<lambda>j. if i \<le> j \<and> j < i + length vs then fst (vs ! (j - i)) else gIDs s j),
       objWeights :=
         (\<lambda>j. if i \<le> j \<and> j < i + length vs then weight (snd (vs ! (j - i)))
              else objWeights s j)\<rparr>"
proof (induction vs arbitrary: i s)
  case Nil
  show ?case
    by (auto intro!: zoltan_mem.equality simp: fun_eq_iff)
next
  case (Cons v vs)
  show ?case
    by (auto intro!: zoltan_mem.equality simp: Cons.IH fun_eq_iff nth_Cons' Suc_diff_le)
qed

text \<open>
  C7. Called as the partitioner calls it (one int per id, one float per weight),
  \<^verbatim>\<open>getGraphOfGridVerticesList\<close> returns the memory it was given with exactly these changes:
  for every position \<open>j\<close> below the number of vertices, \<open>gIDs[j]\<close> and \<open>objWeights[j]\<close> hold
  the id and the weight of the \<open>j\<close>-th vertex in the graph's iteration order, and the status
  is \<open>ZOLTAN_OK\<close>. Every other cell of the two arrays, the buffer \<open>lIDs\<close> and everything
  else are as before.
\<close>

theorem getGraphOfGridVerticesList_fills:
  "getGraphOfGridVerticesList 1 dimLocalID 1 s =
     Inr (s\<lparr>gIDs :=
              (\<lambda>j. if j < length (vertices (pGraph s)) then fst (vertices (pGraph s) ! j)
                   else gIDs s j),
            objWeights :=
              (\<lambda>j. if j < length (vertices (pGraph s))
                   then weight (snd (vertices (pGraph s) ! j))
                   else objWeights s j),
            err := ZOLTAN_OK\<rparr>)"
  by (auto intro!: zoltan_mem.equality
           simp: getGraphOfGridVerticesList_def verticesList_loop_eq fun_eq_iff)

section \<open>Printed numbers read back\<close>

lemma below_ten: "m < 10 \<Longrightarrow> m \<in> {0, 1, 2, 3, 4, 5, 6, 7, 8, 9 :: nat}"
  by (simp only: insert_iff empty_iff) presburger

lemma digit_val_digit_char: "digit_val (digit_char n) = n mod 10"
proof -
  have "n mod 10 \<in> {0, 1, 2, 3, 4, 5, 6, 7, 8, 9}" using below_ten [of "n mod 10"] by simp
  then show ?thesis
    unfolding digit_char_def digit_val_def by (elim insertE emptyE) simp_all
qed

lemma digit_char_not_minus: "digit_char n \<noteq> CHR ''-''"
proof -
  have "n mod 10 \<in> {0, 1, 2, 3, 4, 5, 6, 7, 8, 9}" using below_ten [of "n mod 10"] by simp
  then show ?thesis
    unfolding digit_char_def by (elim insertE emptyE) simp_all
qed

lemma read_nat_snoc: "read_nat (ds @ [d]) = 10 * read_nat ds + digit_val d"
  by (simp add: read_nat_def)

lemma read_nat_show_nat: "read_nat (show_nat n) = n"
proof (induction n rule: show_nat.induct)
  case (1 n)
  show ?case
  proof (cases "n < 10")
    case True
    then show ?thesis
      by (subst show_nat.simps) (simp add: read_nat_def digit_val_digit_char)
  next
    case False
    then have "read_nat (show_nat (n div 10)) = n div 10" by (rule "1.IH")
    then show ?thesis
      using False by (subst show_nat.simps) (simp add: read_nat_snoc digit_val_digit_char)
  qed
qed

lemma show_nat_hd: "\<exists>c cs. show_nat n = c # cs \<and> c \<noteq> CHR ''-''"
proof (induction n rule: show_nat.induct)
  case (1 n)
  show ?case
  proof (cases "n < 10")
    case True
    then show ?thesis
      by (subst show_nat.simps) (simp add: digit_char_not_minus)
  next
    case False
    then obtain c cs where "show_nat (n div 10) = c # cs" "c \<noteq> CHR ''-''"
      using "1.IH" by blast
    then show ?thesis
      using False by (subst show_nat.simps) simp
  qed
qed

lemma read_int_show_int: "read_int (show_int i) = i"
proof (cases "i < 0")
  case True
  then show ?thesis by (simp add: show_int_def read_int_def read_nat_show_nat)
next
  case False
  obtain c cs where s: "show_nat (nat i) = c # cs" "c \<noteq> CHR ''-''"
    using show_nat_hd by blast
  have "int (read_nat (show_nat (nat i))) = i" using False by (simp add: read_nat_show_nat)
  then show ?thesis using False s by (simp add: show_int_def read_int_def)
qed

section \<open>The edge counts of a batch\<close>

lemma live_numEdges: "live g i \<longleftrightarrow> gog_numEdges g i \<noteq> - 1"
  by (auto simp: live_def gog_numEdges_def split: option.splits)

lemma numEdges_loop_fatal:
  assumes "i \<le> k" and "int k < numCells"
    and "\<forall>j. i \<le> j \<and> j < k \<longrightarrow> live (pGraph s) (gIDs s j)"
    and "\<not> live (pGraph s) (gIDs s k)"
  shows "numEdges_loop numCells i s =
     s\<lparr>numEdges :=
         (\<lambda>j. if i \<le> j \<and> j < k then gog_numEdges (pGraph s) (gIDs s j) else numEdges s j),
       oplog := oplog s @ [numEdges_message (gIDs s k)], err := ZOLTAN_FATAL\<rparr>"
  using assms
proof (induction "k - i" arbitrary: i s)
  case 0
  then have "i = k" by simp
  with 0 show ?case
    by (subst numEdges_loop.simps)
       (auto intro!: zoltan_mem.equality simp: live_numEdges fun_eq_iff)
next
  case (Suc d)
  then have ik: "i < k" by simp
  let ?s = "s\<lparr>numEdges := (numEdges s)(i := gog_numEdges (pGraph s) (gIDs s i))\<rparr>"
  have li: "live (pGraph s) (gIDs s i)" using Suc.prems ik by simp
  have step: "numEdges_loop numCells i s = numEdges_loop numCells (Suc i) ?s"
    using li ik Suc.prems(2) by (subst numEdges_loop.simps) (simp add: live_numEdges Let_def)
  have "numEdges_loop numCells (Suc i) ?s =
     ?s\<lparr>numEdges :=
          (\<lambda>j. if Suc i \<le> j \<and> j < k then gog_numEdges (pGraph ?s) (gIDs ?s j)
               else numEdges ?s j),
        oplog := oplog ?s @ [numEdges_message (gIDs ?s k)], err := ZOLTAN_FATAL\<rparr>"
    using Suc.hyps(2) Suc.prems ik by (intro Suc.hyps(1)) auto
  then show ?case unfolding step using ik
    by (auto intro!: zoltan_mem.equality simp: fun_eq_iff)
qed

lemma numEdges_loop_ok:
  assumes "\<forall>j. i \<le> j \<and> int j < numCells \<longrightarrow> live (pGraph s) (gIDs s j)"
  shows "numEdges_loop numCells i s =
     s\<lparr>numEdges :=
         (\<lambda>j. if i \<le> j \<and> int j < numCells then gog_numEdges (pGraph s) (gIDs s j)
              else numEdges s j),
       err := ZOLTAN_OK\<rparr>"
  using assms
proof (induction "nat (numCells - int i)" arbitrary: i s)
  case 0
  then have "\<not> int i < numCells" by simp
  then show ?case
    by (subst numEdges_loop.simps) (auto intro!: zoltan_mem.equality simp: fun_eq_iff)
next
  case (Suc d)
  then have ik: "int i < numCells" by simp
  let ?s = "s\<lparr>numEdges := (numEdges s)(i := gog_numEdges (pGraph s) (gIDs s i))\<rparr>"
  have li: "live (pGraph s) (gIDs s i)" using Suc.prems ik by simp
  have step: "numEdges_loop numCells i s = numEdges_loop numCells (Suc i) ?s"
    using li ik by (subst numEdges_loop.simps) (simp add: live_numEdges Let_def)
  have "numEdges_loop numCells (Suc i) ?s =
     ?s\<lparr>numEdges :=
          (\<lambda>j. if Suc i \<le> j \<and> int j < numCells then gog_numEdges (pGraph ?s) (gIDs ?s j)
               else numEdges ?s j),
        err := ZOLTAN_OK\<rparr>"
    using Suc.hyps(2) Suc.prems ik by (intro Suc.hyps(1)) auto
  then show ?case unfolding step using ik
    by (auto intro!: zoltan_mem.equality simp: fun_eq_iff)
qed

text \<open>
  C6. \<^verbatim>\<open>getGraphOfGridNumEdges\<close> on a batch of \<open>numCells\<close> ids.
  If position \<open>k\<close> of the batch is the first one whose id is not a live vertex, the call
  returns with the status \<open>ZOLTAN_FATAL\<close> and one more line in the log: the words of the
  diagnostic around the decimal numeral of that id, from which the id is read back;
  \<open>numEdges\<close> holds the edge counts of the ids before position \<open>k\<close> and is untouched from
  position \<open>k\<close> on.
  If every id of the batch is live, \<open>numEdges[j]\<close> holds the edge count of the \<open>j\<close>-th id
  for every position of the batch, the status is \<open>ZOLTAN_OK\<close> and nothing is logged.
\<close>

theorem getGraphOfGridNumEdges_status:
  "(int k < numCells \<and> (\<forall>j<k. live (pGraph s) (gIDs s j)) \<and> \<not> live (pGraph s) (gIDs s k) \<longrightarrow>
      getGraphOfGridNumEdges 1 dimLocalID numCells s =
        Inr (s\<lparr>numEdges :=
                 (\<lambda>j. if j < k then gog_numEdges (pGraph s) (gIDs s j) else numEdges s j),
               oplog :=
                 oplog s @
                   [''getGraphOfGridNumEdges error: Vertex with ID '' @ show_int (gIDs s k)
                      @ '' is not in graph.''],
               err := ZOLTAN_FATAL\<rparr>)
      \<and> read_int (show_int (gIDs s k)) = gIDs s k)
   \<and> ((\<forall>j. int j < numCells \<longrightarrow> live (pGraph s) (gIDs s j)) \<longrightarrow>
      getGraphOfGridNumEdges 1 dimLocalID numCells s =
        Inr (s\<lparr>numEdges :=
                 (\<lambda>j. if int j < numCells then gog_numEdges (pGraph s) (gIDs s j)
                      else numEdges s j),
               err := ZOLTAN_OK\<rparr>))"
proof (rule conjI)
  show "int k < numCells \<and> (\<forall>j<k. live (pGraph s) (gIDs s j)) \<and> \<not> live (pGraph s) (gIDs s k) \<longrightarrow>
      getGraphOfGridNumEdges 1 dimLocalID numCells s =
        Inr (s\<lparr>numEdges :=
                 (\<lambda>j. if j < k then gog_numEdges (pGraph s) (gIDs s j) else numEdges s j),
               oplog :=
                 oplog s @
                   [''getGraphOfGridNumEdges error: Vertex with ID '' @ show_int (gIDs s k)
                      @ '' is not in graph.''],
               err := ZOLTAN_FATAL\<rparr>)
      \<and> read_int (show_int (gIDs s k)) = gIDs s k"
  proof (rule impI)
    assume "int k < numCells \<and> (\<forall>j<k. live (pGraph s) (gIDs s j))
        \<and> \<not> live (pGraph s) (gIDs s k)"
    then have "numEdges_loop numCells 0 s =
       s\<lparr>numEdges :=
           (\<lambda>j. if 0 \<le> j \<and> j < k then gog_numEdges (pGraph s) (gIDs s j) else numEdges s j),
         oplog := oplog s @ [numEdges_message (gIDs s k)], err := ZOLTAN_FATAL\<rparr>"
      by (intro numEdges_loop_fatal) auto
    then show "getGraphOfGridNumEdges 1 dimLocalID numCells s =
        Inr (s\<lparr>numEdges :=
                 (\<lambda>j. if j < k then gog_numEdges (pGraph s) (gIDs s j) else numEdges s j),
               oplog :=
                 oplog s @
                   [''getGraphOfGridNumEdges error: Vertex with ID '' @ show_int (gIDs s k)
                      @ '' is not in graph.''],
               err := ZOLTAN_FATAL\<rparr>)
      \<and> read_int (show_int (gIDs s k)) = gIDs s k"
      by (simp add: getGraphOfGridNumEdges_def numEdges_message_def read_int_show_int)
  qed
next
  show "(\<forall>j. int j < numCells \<longrightarrow> live (pGraph s) (gIDs s j)) \<longrightarrow>
      getGraphOfGridNumEdges 1 dimLocalID numCells s =
        Inr (s\<lparr>numEdges :=
                 (\<lambda>j. if int j < numCells then gog_numEdges (pGraph s) (gIDs s j)
                      else numEdges s j),
               err := ZOLTAN_OK\<rparr>)"
  proof (rule impI)
    assume "\<forall>j. int j < numCells \<longrightarrow> live (pGraph s) (gIDs s j)"
    then have "numEdges_loop numCells 0 s =
       s\<lparr>numEdges :=
           (\<lambda>j. if 0 \<le> j \<and> int j < numCells then gog_numEdges (pGraph s) (gIDs s j)
                else numEdges s j),
         err := ZOLTAN_OK\<rparr>"
      by (intro numEdges_loop_ok) auto
    then show "getGraphOfGridNumEdges 1 dimLocalID numCells s =
        Inr (s\<lparr>numEdges :=
                 (\<lambda>j. if int j < numCells then gog_numEdges (pGraph s) (gIDs s j)
                      else numEdges s j),
               err := ZOLTAN_OK\<rparr>)"
      by (simp add: getGraphOfGridNumEdges_def)
  qed
qed

lemma square_live: "live square_graph i \<longleftrightarrow> i \<in> {0, 1, 2, 3}"
  by (simp add: live_def square_graph_def)

theorem getGraphOfGridNumEdges_status_witness:
  "live (pGraph batch_mem) (gIDs batch_mem 0) \<and> \<not> live (pGraph batch_mem) (gIDs batch_mem 1)
   \<and> \<not> live (pGraph negative_mem) (gIDs negative_mem 0)
   \<and> getGraphOfGridNumEdges 1 1 3 batch_mem =
       Inr (batch_mem\<lparr>numEdges := (\<lambda>j. if j < 1 then 2 else 0),
              oplog := [''getGraphOfGridNumEdges error: Vertex with ID 7 is not in graph.''],
              err := 0\<rparr>)
   \<and> getGraphOfGridNumEdges 1 1 1 negative_mem =
       Inr (negative_mem
            \<lparr>oplog := [''getGraphOfGridNumEdges error: Vertex with ID -12 is not in graph.''],
             err := 0\<rparr>)
   \<and> read_int ''7'' = 7 \<and> read_int ''-12'' = - 12
   \<and> getGraphOfGridNumEdges 1 1 1 batch_mem =
       Inr (batch_mem\<lparr>numEdges := (\<lambda>j. if j < 1 then 2 else 0), err := 1\<rparr>)"
proof -
  have l0: "live (pGraph batch_mem) (gIDs batch_mem 0)"
    and l1: "\<not> live (pGraph batch_mem) (gIDs batch_mem 1)"
    and l2: "\<not> live (pGraph negative_mem) (gIDs negative_mem 0)"
    by (simp_all add: batch_mem_def negative_mem_def fresh_mem_def square_live)
  have c0: "gog_numEdges (pGraph batch_mem) (gIDs batch_mem 0) = 2"
    by (simp add: batch_mem_def fresh_mem_def gog_numEdges_def square_graph_def unit_vertex_def)
  have ids: "gIDs batch_mem (Suc 0) = 7" "gIDs negative_mem 0 = - 12"
    by (simp_all add: batch_mem_def negative_mem_def fresh_mem_def)
  have m: "show_int 7 = ''7''" "show_int (- 12) = ''-12''"
    by (simp_all add: show_int_def show_nat.simps digit_char_def)
  have z: "numEdges batch_mem = (\<lambda>_. 0)" "oplog batch_mem = []" "oplog negative_mem = []"
    by (simp_all add: batch_mem_def negative_mem_def fresh_mem_def)
  have n: "negative_mem\<lparr>numEdges := numEdges negative_mem\<rparr> = negative_mem"
    by simp
  have a: "getGraphOfGridNumEdges 1 1 3 batch_mem =
       Inr (batch_mem\<lparr>numEdges := (\<lambda>j. if j < 1 then 2 else 0),
              oplog := [''getGraphOfGridNumEdges error: Vertex with ID 7 is not in graph.''],
              err := 0\<rparr>)
      \<and> read_int ''7'' = 7"
    using getGraphOfGridNumEdges_status [of 1 3 batch_mem 1] l0 l1
    by (simp add: c0 ids m z ZOLTAN_FATAL_def cong: if_cong)
  have a': "getGraphOfGridNumEdges 1 1 1 negative_mem =
       Inr (negative_mem
            \<lparr>oplog := [''getGraphOfGridNumEdges error: Vertex with ID -12 is not in graph.''],
             err := 0\<rparr>)
      \<and> read_int ''-12'' = - 12"
    using getGraphOfGridNumEdges_status [of 0 1 negative_mem 1] l2
    by (simp add: ids m z n ZOLTAN_FATAL_def cong: if_cong)
  have b: "getGraphOfGridNumEdges 1 1 1 batch_mem =
       Inr (batch_mem\<lparr>numEdges := (\<lambda>j. if j < 1 then 2 else 0), err := 1\<rparr>)"
    using getGraphOfGridNumEdges_status [of 0 1 batch_mem 1] l0
    by (simp add: c0 z ZOLTAN_OK_def cong: if_cong)
  show ?thesis using l0 l1 l2 a a' b by simp
qed

section \<open>The callbacks only read the graph\<close>

lemma verticesList_loop_pGraph: "pGraph (verticesList_loop vs i s) = pGraph s"
  by (simp add: verticesList_loop_eq)

lemma numEdges_loop_pGraph: "pGraph (numEdges_loop n i s) = pGraph s"
proof (induction n i s rule: numEdges_loop.induct)
  case (1 n i s)
  show ?case
  proof (cases "int i < n \<and> gog_numEdges (pGraph s) (gIDs s i) \<noteq> - 1")
    case True
    then show ?thesis
      using "1.IH" [of "gog_numEdges (pGraph s) (gIDs s i)"]
      by (subst numEdges_loop.simps) (simp add: Let_def)
  next
    case False
    then show ?thesis
      by (subst numEdges_loop.simps) (auto simp: Let_def)
  qed
qed

lemma emit_edges_pGraph: "emit_edges es pos s = Inr r \<Longrightarrow> pGraph (snd r) = pGraph s"
proof (induction es arbitrary: pos s)
  case Nil
  then show ?case by auto
next
  case (Cons e es)
  then show ?case
    by (auto split: sum.splits)
qed


lemma edgeList_loop_pGraph: "edgeList_loop n i pos s = Inr s' \<Longrightarrow> pGraph s' = pGraph s"
proof (induction n i pos s arbitrary: s' rule: edgeList_loop.induct)
  case (1 n i pos s)
  show ?case
  proof (cases "int i < n")
    case False
    with "1.prems" show ?thesis
      by (subst (asm) edgeList_loop.simps) auto
  next
    case lt: True
    show ?thesis
    proof (cases "edgeList (pGraph s) (gIDs s i)")
      case (Inl x)
      with "1.prems" lt show ?thesis
        by (subst (asm) edgeList_loop.simps) simp
    next
      case (Inr eList)
      show ?thesis
      proof (cases "int (length eList) \<noteq> numEdges s i")
        case True
        with "1.prems" lt Inr show ?thesis
          by (subst (asm) edgeList_loop.simps) auto
      next
        case eq: False
        show ?thesis
        proof (cases "emit_edges eList pos s")
          case (Inl x)
          with "1.prems" lt Inr eq show ?thesis
            by (subst (asm) edgeList_loop.simps) simp
        next
          case r: (Inr r)
          have "edgeList_loop n (Suc i) (fst r) (snd r) = Inr s'"
            using "1.prems" lt Inr eq r by (subst (asm) edgeList_loop.simps) simp
          then have "pGraph s' = pGraph (snd r)"
            using "1.IH" [OF lt Inr eq r] by simp
          then show ?thesis
            using emit_edges_pGraph [OF r] by simp
        qed
      qed
    qed
  qed
qed

lemma run_call_pGraph: "run_call c s = Inr s' \<Longrightarrow> pGraph s' = pGraph s"
  by (cases c)
    (auto simp: getGraphOfGridNumVertices_def getGraphOfGridVerticesList_def
      getGraphOfGridNumEdges_def getGraphOfGridEdgeList_def verticesList_loop_pGraph
      numEdges_loop_pGraph split: if_splits dest: edgeList_loop_pGraph)

text \<open>
  C9. Whatever sequence of calls to the four callbacks the partitioner makes, with whatever
  arguments, the graph behind \<open>pGraph\<close> after the last call is the graph before the first:
  the callbacks read it and write only the status, the log and the output buffers, whether
  they report \<open>ZOLTAN_OK\<close> or \<open>ZOLTAN_FATAL\<close>.
\<close>

theorem callbacks_leave_graph:
  "run_calls cs s = Inr s' \<Longrightarrow> pGraph s' = pGraph s"
proof (induction cs arbitrary: s)
  case Nil
  then show ?case by simp
next
  case (Cons c cs)
  then show ?case
    by (auto split: sum.splits dest: run_call_pGraph)
qed


lemma square_calls_run:
  "\<exists>m. run_calls square_calls (fresh_mem square_graph) = Inr m \<and> err m = ZOLTAN_FATAL"
  by (simp add: square_calls_def fresh_mem_def square_graph_def unit_vertex_def
      getGraphOfGridNumVertices_def getGraphOfGridVerticesList_def
      getGraphOfGridNumEdges_def getGraphOfGridEdgeList_def numEdges_loop.simps
      edgeList_loop.simps gog_numEdges_def edgeList_def getVertex_def Let_def)

theorem callbacks_leave_graph_witness:
  "\<exists>m. run_calls square_calls (fresh_mem square_graph) = Inr m \<and> err m = ZOLTAN_FATAL
       \<and> pGraph m = pGraph (fresh_mem square_graph)"
  using square_calls_run callbacks_leave_graph [of square_calls "fresh_mem square_graph"]
  by blast

section \<open>The edge lists of a batch\<close>

lemma getVertex_live:
  "live g n \<Longrightarrow> \<exists>v. getVertex g n = Inr v \<and> nproc v = nproc_of g n"
  by (auto simp: live_def getVertex_def nproc_of_def)

lemma edgeList_live: "live g n \<Longrightarrow> edgeList g n = Inr (edges_of g n)"
  by (auto simp: live_def edgeList_def edges_of_def)

lemma emitted_fields [simp]:
  "pGraph (emitted es pos s) = pGraph s" "gIDs (emitted es pos s) = gIDs s"
  "numEdges (emitted es pos s) = numEdges s" "oplog (emitted es pos s) = oplog s"
  by (simp_all add: emitted_def)

lemma emitted_Nil [simp]: "emitted [] pos s = s"
  by (auto intro!: zoltan_mem.equality simp: emitted_def fun_eq_iff)

lemma emitted_Cons:
  "emitted (e # es) pos s =
     emitted es (Suc pos)
       (s\<lparr>nborGIDs := (nborGIDs s)(pos := fst e),
          nborProc := (nborProc s)(pos := nproc_of (pGraph s) (fst e)),
          edgeWeights := (edgeWeights s)(pos := snd e)\<rparr>)"
  by (auto intro!: zoltan_mem.equality simp: emitted_def fun_eq_iff nth_Cons' Suc_diff_le)

lemma emitted_append:
  "emitted (es @ fs) pos s = emitted fs (pos + length es) (emitted es pos s)"
proof (induction es arbitrary: pos s)
  case Nil
  show ?case by simp
next
  case (Cons e es)
  show ?case
    by (simp add: emitted_Cons Cons.IH)
qed

lemma emit_edges_eq:
  "\<forall>e \<in> set es. live (pGraph s) (fst e) \<Longrightarrow>
   emit_edges es pos s = Inr (pos + length es, emitted es pos s)"
proof (induction es arbitrary: pos s)
  case Nil
  show ?case by simp
next
  case (Cons e es)
  from Cons.prems obtain v where v: "getVertex (pGraph s) (fst e) = Inr v"
    "nproc v = nproc_of (pGraph s) (fst e)"
    using getVertex_live [of "pGraph s" "fst e"] by auto
  let ?s = "s\<lparr>nborGIDs := (nborGIDs s)(pos := fst e),
          nborProc := (nborProc s)(pos := nproc_of (pGraph s) (fst e)),
          edgeWeights := (edgeWeights s)(pos := snd e)\<rparr>"
  have "emit_edges es (Suc pos) ?s = Inr (Suc pos + length es, emitted es (Suc pos) ?s)"
    using Cons.prems by (intro Cons.IH) simp
  then show ?case
    by (simp add: v emitted_Cons)
qed

lemma closed_graph_edges:
  "\<forall>e \<in> set (edges_of g n). live g (fst e)" if "closed_graph g"
proof (cases "map_of (vertices g) n")
  case None
  then show ?thesis by (simp add: edges_of_def)
next
  case (Some v)
  then have "(n, v) \<in> set (vertices g)" by (rule map_of_SomeD)
  then show ?thesis
    using that Some by (fastforce simp: closed_graph_def edges_of_def)
qed

lemma batch_edges_step:
  "i < k \<Longrightarrow> batch_edges g ids i k = edges_of g (ids i) @ batch_edges g ids (Suc i) k"
  by (simp add: batch_edges_def upt_conv_Cons)

lemma batch_edges_empty [simp]: "batch_edges g ids k k = []"
  by (simp add: batch_edges_def)

lemma edgeList_loop_fatal:
  assumes "i \<le> k" and "int k < numCells" and "closed_graph (pGraph s)"
    and "\<forall>j. i \<le> j \<and> j \<le> k \<longrightarrow> live (pGraph s) (gIDs s j)"
    and "\<forall>j. i \<le> j \<and> j < k \<longrightarrow> int (length (edges_of (pGraph s) (gIDs s j))) = numEdges s j"
    and "int (length (edges_of (pGraph s) (gIDs s k))) \<noteq> numEdges s k"
  shows "edgeList_loop numCells i pos s =
     Inr ((emitted (batch_edges (pGraph s) (gIDs s) i k) pos s)
          \<lparr>oplog := oplog s @ [edgeList_message (numEdges s k)
                      (length (edges_of (pGraph s) (gIDs s k))) (gIDs s k)],
           err := ZOLTAN_FATAL\<rparr>)"
  using assms
proof (induction "k - i" arbitrary: i pos s)
  case 0
  then have "i = k" by simp
  with 0 show ?case
    by (subst edgeList_loop.simps) (simp add: edgeList_live)
next
  case (Suc d)
  then have ik: "i < k" by simp
  let ?es = "edges_of (pGraph s) (gIDs s i)"
  let ?s = "emitted ?es pos s"
  have li: "live (pGraph s) (gIDs s i)" using Suc.prems ik by simp
  have cnt: "int (length ?es) = numEdges s i" using Suc.prems ik by simp
  have em: "emit_edges ?es pos s = Inr (pos + length ?es, ?s)"
    using closed_graph_edges [OF Suc.prems(3)] by (intro emit_edges_eq) simp
  have step: "edgeList_loop numCells i pos s = edgeList_loop numCells (Suc i) (pos + length ?es) ?s"
    using li ik Suc.prems(2) cnt em
    by (subst edgeList_loop.simps) (simp add: edgeList_live)
  have "edgeList_loop numCells (Suc i) (pos + length ?es) ?s =
     Inr ((emitted (batch_edges (pGraph ?s) (gIDs ?s) (Suc i) k) (pos + length ?es) ?s)
          \<lparr>oplog := oplog ?s @ [edgeList_message (numEdges ?s k)
                      (length (edges_of (pGraph ?s) (gIDs ?s k))) (gIDs ?s k)],
           err := ZOLTAN_FATAL\<rparr>)"
    using Suc.hyps(2) Suc.prems ik by (intro Suc.hyps(1)) auto
  then show ?case unfolding step
    by (simp add: batch_edges_step [OF ik] emitted_append)
qed

lemma edgeList_loop_ok:
  assumes "closed_graph (pGraph s)"
    and "\<forall>j. i \<le> j \<and> int j < numCells \<longrightarrow> live (pGraph s) (gIDs s j)"
    and "\<forall>j. i \<le> j \<and> int j < numCells \<longrightarrow>
           int (length (edges_of (pGraph s) (gIDs s j))) = numEdges s j"
  shows "edgeList_loop numCells i pos s =
     Inr ((emitted (batch_edges (pGraph s) (gIDs s) i (max i (nat numCells))) pos s)
          \<lparr>err := ZOLTAN_OK\<rparr>)"
  using assms
proof (induction "nat (numCells - int i)" arbitrary: i pos s)
  case 0
  then have "\<not> int i < numCells" by simp
  then have "max i (nat numCells) = i" by simp
  with \<open>\<not> int i < numCells\<close> show ?case
    by (subst edgeList_loop.simps) simp
next
  case (Suc d)
  then have ik: "int i < numCells" by simp
  then have ik': "i < max i (nat numCells)" and mx: "max (Suc i) (nat numCells) = max i (nat numCells)"
    by auto
  let ?es = "edges_of (pGraph s) (gIDs s i)"
  let ?s = "emitted ?es pos s"
  have li: "live (pGraph s) (gIDs s i)" using Suc.prems ik by simp
  have cnt: "int (length ?es) = numEdges s i" using Suc.prems ik by simp
  have em: "emit_edges ?es pos s = Inr (pos + length ?es, ?s)"
    using closed_graph_edges [OF Suc.prems(1)] by (intro emit_edges_eq) simp
  have step: "edgeList_loop numCells i pos s = edgeList_loop numCells (Suc i) (pos + length ?es) ?s"
    using li ik cnt em
    by (subst edgeList_loop.simps) (simp add: edgeList_live)
  have "edgeList_loop numCells (Suc i) (pos + length ?es) ?s =
     Inr ((emitted (batch_edges (pGraph ?s) (gIDs ?s) (Suc i) (max (Suc i) (nat numCells)))
            (pos + length ?es) ?s)\<lparr>err := ZOLTAN_OK\<rparr>)"
    using Suc.hyps(2) Suc.prems ik by (intro Suc.hyps(1)) auto
  then show ?case unfolding step mx
    by (simp add: batch_edges_step [OF ik'] emitted_append)
qed


lemma live_count: "live g n \<Longrightarrow> gog_numEdges g n = int (length (edges_of g n))"
  by (auto simp: live_def gog_numEdges_def edges_of_def)

lemma edgeList_loop_throw:
  assumes "i \<le> k" and "int k < numCells" and "closed_graph (pGraph s)"
    and "\<forall>j. i \<le> j \<and> j < k \<longrightarrow> live (pGraph s) (gIDs s j)"
    and "\<forall>j. i \<le> j \<and> j < k \<longrightarrow> int (length (edges_of (pGraph s) (gIDs s j))) = numEdges s j"
    and "\<not> live (pGraph s) (gIDs s k)"
  shows "edgeList_loop numCells i pos s = Inl LogicError"
  using assms
proof (induction "k - i" arbitrary: i pos s)
  case 0
  then have "i = k" by simp
  with 0 show ?case
    by (subst edgeList_loop.simps) (simp add: edgeList_def live_def)
next
  case (Suc d)
  then have ik: "i < k" by simp
  let ?es = "edges_of (pGraph s) (gIDs s i)"
  let ?s = "emitted ?es pos s"
  have li: "live (pGraph s) (gIDs s i)" using Suc.prems ik by simp
  have cnt: "int (length ?es) = numEdges s i" using Suc.prems ik by simp
  have em: "emit_edges ?es pos s = Inr (pos + length ?es, ?s)"
    using closed_graph_edges [OF Suc.prems(3)] by (intro emit_edges_eq) simp
  have step: "edgeList_loop numCells i pos s = edgeList_loop numCells (Suc i) (pos + length ?es) ?s"
    using li ik Suc.prems(2) cnt em
    by (subst edgeList_loop.simps) (simp add: edgeList_live)
  have "edgeList_loop numCells (Suc i) (pos + length ?es) ?s = Inl LogicError"
    using Suc.hyps(2) Suc.prems ik by (intro Suc.hyps(1)) auto
  then show ?case unfolding step .
qed

text \<open>
  C2, amended. \<^verbatim>\<open>getGraphOfGridEdgeList\<close> on a batch of \<open>numCells\<close> ids of a graph whose
  edges all lead to live vertices.
  If position \<open>k\<close> of the batch is the first one whose expected count \<open>numEdges[k]\<close> differs
  from the number of neighbours the graph reports, and the ids at the positions up to
  \<open>k\<close> are live, the call returns with the status \<open>ZOLTAN_FATAL\<close> and one more line in
  the log: the words of the diagnostic around the decimal numerals of the expected count,
  of the graph's count and of the id, from which the three are read back; the three
  output arrays hold the edges of the ids before position \<open>k\<close>, one edge list after the
  other, and are untouched from there on: no edge of the id at position \<open>k\<close> or of a later
  id is written.
  If every id of the batch is live and every count matches, the arrays hold the edges
  of the whole batch, the status is \<open>ZOLTAN_OK\<close> and nothing is logged.
  If position \<open>k\<close> is the first one whose id is not live, and the counts before it match,
  \<^verbatim>\<open>edgeList\<close> throws \<^verbatim>\<open>std::logic_error\<close>: the call does not return and sets no status.
\<close>

theorem getGraphOfGridEdgeList_status:
  assumes "closed_graph (pGraph s)"
  shows
  "(int k < numCells \<and> (\<forall>j\<le>k. live (pGraph s) (gIDs s j))
      \<and> (\<forall>j<k. gog_numEdges (pGraph s) (gIDs s j) = numEdges s j)
      \<and> gog_numEdges (pGraph s) (gIDs s k) \<noteq> numEdges s k \<longrightarrow>
      getGraphOfGridEdgeList 1 dimLocalID numCells 1 s =
        Inr ((emitted (batch_edges (pGraph s) (gIDs s) 0 k) 0 s)
             \<lparr>oplog :=
                oplog s @
                  [''getGraphOfGridEdgeList error: Edge number disagreement''
                     @ '' between Zoltan ('' @ show_int (numEdges s k) @ '') and Graph (''
                     @ show_nat (length (edges_of (pGraph s) (gIDs s k)))
                     @ '') for vertex with ID '' @ show_int (gIDs s k) @ [CHR 0x0A]],
              err := ZOLTAN_FATAL\<rparr>)
      \<and> read_int (show_int (numEdges s k)) = numEdges s k
      \<and> int (read_nat (show_nat (length (edges_of (pGraph s) (gIDs s k)))))
          = gog_numEdges (pGraph s) (gIDs s k)
      \<and> read_int (show_int (gIDs s k)) = gIDs s k)
   \<and> ((\<forall>j. int j < numCells \<longrightarrow>
          live (pGraph s) (gIDs s j) \<and> gog_numEdges (pGraph s) (gIDs s j) = numEdges s j) \<longrightarrow>
      getGraphOfGridEdgeList 1 dimLocalID numCells 1 s =
        Inr ((emitted (batch_edges (pGraph s) (gIDs s) 0 (nat numCells)) 0 s)
             \<lparr>err := ZOLTAN_OK\<rparr>))
   \<and> (int k < numCells
       \<and> (\<forall>j<k. live (pGraph s) (gIDs s j)
              \<and> gog_numEdges (pGraph s) (gIDs s j) = numEdges s j)
       \<and> \<not> live (pGraph s) (gIDs s k) \<longrightarrow>
      getGraphOfGridEdgeList 1 dimLocalID numCells 1 s = Inl LogicError)"
proof (intro conjI)
  show "int k < numCells \<and> (\<forall>j\<le>k. live (pGraph s) (gIDs s j))
      \<and> (\<forall>j<k. gog_numEdges (pGraph s) (gIDs s j) = numEdges s j)
      \<and> gog_numEdges (pGraph s) (gIDs s k) \<noteq> numEdges s k \<longrightarrow>
      getGraphOfGridEdgeList 1 dimLocalID numCells 1 s =
        Inr ((emitted (batch_edges (pGraph s) (gIDs s) 0 k) 0 s)
             \<lparr>oplog :=
                oplog s @
                  [''getGraphOfGridEdgeList error: Edge number disagreement''
                     @ '' between Zoltan ('' @ show_int (numEdges s k) @ '') and Graph (''
                     @ show_nat (length (edges_of (pGraph s) (gIDs s k)))
                     @ '') for vertex with ID '' @ show_int (gIDs s k) @ [CHR 0x0A]],
              err := ZOLTAN_FATAL\<rparr>)
      \<and> read_int (show_int (numEdges s k)) = numEdges s k
      \<and> int (read_nat (show_nat (length (edges_of (pGraph s) (gIDs s k)))))
          = gog_numEdges (pGraph s) (gIDs s k)
      \<and> read_int (show_int (gIDs s k)) = gIDs s k"
  proof (rule impI)
    assume a: "int k < numCells \<and> (\<forall>j\<le>k. live (pGraph s) (gIDs s j))
      \<and> (\<forall>j<k. gog_numEdges (pGraph s) (gIDs s j) = numEdges s j)
      \<and> gog_numEdges (pGraph s) (gIDs s k) \<noteq> numEdges s k"
    have "edgeList_loop numCells 0 0 s =
       Inr ((emitted (batch_edges (pGraph s) (gIDs s) 0 k) 0 s)
            \<lparr>oplog := oplog s @ [edgeList_message (numEdges s k)
                        (length (edges_of (pGraph s) (gIDs s k))) (gIDs s k)],
             err := ZOLTAN_FATAL\<rparr>)"
    proof (rule edgeList_loop_fatal [OF _ _ assms])
      show "0 \<le> k" by simp
      show "int k < numCells" using a by simp
      show "\<forall>j. 0 \<le> j \<and> j \<le> k \<longrightarrow> live (pGraph s) (gIDs s j)" using a by simp
      show "\<forall>j. 0 \<le> j \<and> j < k \<longrightarrow>
          int (length (edges_of (pGraph s) (gIDs s j))) = numEdges s j"
        using a live_count [of "pGraph s"] by (metis less_imp_le)
      show "int (length (edges_of (pGraph s) (gIDs s k))) \<noteq> numEdges s k"
        using a live_count [of "pGraph s" "gIDs s k"] by simp
    qed
    moreover have "int (read_nat (show_nat (length (edges_of (pGraph s) (gIDs s k)))))
          = gog_numEdges (pGraph s) (gIDs s k)"
      using a live_count [of "pGraph s" "gIDs s k"] by (simp add: read_nat_show_nat)
    ultimately show "getGraphOfGridEdgeList 1 dimLocalID numCells 1 s =
        Inr ((emitted (batch_edges (pGraph s) (gIDs s) 0 k) 0 s)
             \<lparr>oplog :=
                oplog s @
                  [''getGraphOfGridEdgeList error: Edge number disagreement''
                     @ '' between Zoltan ('' @ show_int (numEdges s k) @ '') and Graph (''
                     @ show_nat (length (edges_of (pGraph s) (gIDs s k)))
                     @ '') for vertex with ID '' @ show_int (gIDs s k) @ [CHR 0x0A]],
              err := ZOLTAN_FATAL\<rparr>)
      \<and> read_int (show_int (numEdges s k)) = numEdges s k
      \<and> int (read_nat (show_nat (length (edges_of (pGraph s) (gIDs s k)))))
          = gog_numEdges (pGraph s) (gIDs s k)
      \<and> read_int (show_int (gIDs s k)) = gIDs s k"
      by (simp add: getGraphOfGridEdgeList_def edgeList_message_def read_int_show_int)
  qed
next
  show "(\<forall>j. int j < numCells \<longrightarrow>
          live (pGraph s) (gIDs s j) \<and> gog_numEdges (pGraph s) (gIDs s j) = numEdges s j) \<longrightarrow>
      getGraphOfGridEdgeList 1 dimLocalID numCells 1 s =
        Inr ((emitted (batch_edges (pGraph s) (gIDs s) 0 (nat numCells)) 0 s)
             \<lparr>err := ZOLTAN_OK\<rparr>)"
  proof (rule impI)
    assume a: "\<forall>j. int j < numCells \<longrightarrow>
          live (pGraph s) (gIDs s j) \<and> gog_numEdges (pGraph s) (gIDs s j) = numEdges s j"
    have "edgeList_loop numCells 0 0 s =
       Inr ((emitted (batch_edges (pGraph s) (gIDs s) 0 (max 0 (nat numCells))) 0 s)
            \<lparr>err := ZOLTAN_OK\<rparr>)"
    proof (rule edgeList_loop_ok [OF assms])
      show "\<forall>j. 0 \<le> j \<and> int j < numCells \<longrightarrow> live (pGraph s) (gIDs s j)" using a by simp
      show "\<forall>j. 0 \<le> j \<and> int j < numCells \<longrightarrow>
          int (length (edges_of (pGraph s) (gIDs s j))) = numEdges s j"
        using a live_count [of "pGraph s"] by metis
    qed
    then show "getGraphOfGridEdgeList 1 dimLocalID numCells 1 s =
        Inr ((emitted (batch_edges (pGraph s) (gIDs s) 0 (nat numCells)) 0 s)
             \<lparr>err := ZOLTAN_OK\<rparr>)"
      by (simp add: getGraphOfGridEdgeList_def)
  qed
next
  show "int k < numCells
       \<and> (\<forall>j<k. live (pGraph s) (gIDs s j)
              \<and> gog_numEdges (pGraph s) (gIDs s j) = numEdges s j)
       \<and> \<not> live (pGraph s) (gIDs s k) \<longrightarrow>
      getGraphOfGridEdgeList 1 dimLocalID numCells 1 s = Inl LogicError"
  proof (rule impI)
    assume a: "int k < numCells
       \<and> (\<forall>j<k. live (pGraph s) (gIDs s j)
              \<and> gog_numEdges (pGraph s) (gIDs s j) = numEdges s j)
       \<and> \<not> live (pGraph s) (gIDs s k)"
    have "edgeList_loop numCells 0 0 s = Inl LogicError"
    proof (rule edgeList_loop_throw [OF _ _ assms])
      show "0 \<le> k" by simp
      show "int k < numCells" using a by simp
      show "\<forall>j. 0 \<le> j \<and> j < k \<longrightarrow> live (pGraph s) (gIDs s j)" using a by simp
      show "\<forall>j. 0 \<le> j \<and> j < k \<longrightarrow>
          int (length (edges_of (pGraph s) (gIDs s j))) = numEdges s j"
        using a live_count [of "pGraph s"] by metis
      show "\<not> live (pGraph s) (gIDs s k)" using a by simp
    qed
    then show "getGraphOfGridEdgeList 1 dimLocalID numCells 1 s = Inl LogicError"
      by (simp add: getGraphOfGridEdgeList_def)
  qed
qed


lemma square_closed: "closed_graph square_graph"
  by (simp add: closed_graph_def square_graph_def unit_vertex_def live_def)

text \<open>
  The claim as it was stated promises \<open>ZOLTAN_FATAL\<close> whenever some id of the batch has a
  count that differs. Here the second id of the batch (3, with two neighbours, five
  expected) is such an id, but the first id (7) is not in the graph: \<^verbatim>\<open>edgeList\<close> throws
  \<^verbatim>\<open>std::logic_error\<close> and the callback sets no status at all.
\<close>

theorem getGraphOfGridEdgeList_counterexample:
  "live (pGraph stale_mem) (gIDs stale_mem 1)
   \<and> gog_numEdges (pGraph stale_mem) (gIDs stale_mem 1) \<noteq> numEdges stale_mem 1
   \<and> getGraphOfGridEdgeList 1 1 2 1 stale_mem = Inl LogicError"
  by (simp add: stale_mem_def fresh_mem_def live_def gog_numEdges_def square_graph_def
      unit_vertex_def getGraphOfGridEdgeList_def edgeList_loop.simps edgeList_def)

theorem getGraphOfGridEdgeList_status_witness:
  "closed_graph (pGraph wrong_count_mem)
   \<and> live (pGraph wrong_count_mem) (gIDs wrong_count_mem 0)
   \<and> live (pGraph wrong_count_mem) (gIDs wrong_count_mem 1)
   \<and> gog_numEdges (pGraph wrong_count_mem) (gIDs wrong_count_mem 0) = numEdges wrong_count_mem 0
   \<and> gog_numEdges (pGraph wrong_count_mem) (gIDs wrong_count_mem 1) \<noteq> numEdges wrong_count_mem 1
   \<and> getGraphOfGridEdgeList 1 1 3 1 wrong_count_mem =
       Inr (wrong_count_mem
            \<lparr>nborGIDs := (\<lambda>j. if j = 0 then 1 else if j = 1 then 2 else 0),
             nborProc := (\<lambda>j. 0),
             edgeWeights := (\<lambda>j. if j < 2 then 1 else 0),
             oplog := [''getGraphOfGridEdgeList error: Edge number disagreement''
                  @ '' between Zoltan (5) and Graph (2) for vertex with ID 0'' @ [CHR 0x0A]],
             err := 0\<rparr>)
   \<and> getGraphOfGridEdgeList 1 1 1 1 wrong_count_mem =
       Inr (wrong_count_mem
            \<lparr>nborGIDs := (\<lambda>j. if j = 0 then 1 else if j = 1 then 2 else 0),
             nborProc := (\<lambda>j. 0),
             edgeWeights := (\<lambda>j. if j < 2 then 1 else 0),
             err := 1\<rparr>)
   \<and> closed_graph (pGraph short_count_mem)
   \<and> live (pGraph short_count_mem) (gIDs short_count_mem 0)
   \<and> gog_numEdges (pGraph short_count_mem) (gIDs short_count_mem 0) \<noteq> numEdges short_count_mem 0
   \<and> getGraphOfGridEdgeList 1 1 1 1 short_count_mem =
       Inr (short_count_mem
            \<lparr>oplog := [''getGraphOfGridEdgeList error: Edge number disagreement''
                  @ '' between Zoltan (-3) and Graph (2) for vertex with ID 1'' @ [CHR 0x0A]],
             err := 0\<rparr>)
   \<and> closed_graph (pGraph stale_mem)
   \<and> \<not> live (pGraph stale_mem) (gIDs stale_mem 0)
   \<and> getGraphOfGridEdgeList 1 1 2 1 stale_mem = Inl LogicError"
proof -
  have g: "pGraph wrong_count_mem = square_graph" "pGraph short_count_mem = square_graph"
    "pGraph stale_mem = square_graph"
    by (simp_all add: wrong_count_mem_def short_count_mem_def stale_mem_def fresh_mem_def)
  have c: "closed_graph (pGraph wrong_count_mem)" "closed_graph (pGraph short_count_mem)"
    "closed_graph (pGraph stale_mem)"
    by (simp_all add: g square_closed)
  have ids: "gIDs wrong_count_mem 0 = 3" "gIDs wrong_count_mem (Suc 0) = 0"
    "gIDs short_count_mem 0 = 1" "gIDs stale_mem 0 = 7"
    and cnt: "numEdges wrong_count_mem 0 = 2" "numEdges wrong_count_mem (Suc 0) = 5"
    "numEdges short_count_mem 0 = - 3"
    by (simp_all add: wrong_count_mem_def short_count_mem_def stale_mem_def fresh_mem_def)
  have l: "live (pGraph wrong_count_mem) (gIDs wrong_count_mem 0)"
    "live (pGraph wrong_count_mem) (gIDs wrong_count_mem (Suc 0))"
    "live (pGraph short_count_mem) (gIDs short_count_mem 0)"
    "\<not> live (pGraph stale_mem) (gIDs stale_mem 0)"
    by (simp_all add: g ids square_live)
  have n: "gog_numEdges square_graph 3 = 2" "gog_numEdges square_graph 0 = 2"
    "gog_numEdges square_graph 1 = 2"
    by (simp_all add: gog_numEdges_def square_graph_def unit_vertex_def)
  have e: "edges_of square_graph 3 = [(1, 1), (2, 1)]" "edges_of square_graph 0 = [(1, 1), (2, 1)]"
    "edges_of square_graph 1 = [(0, 1), (3, 1)]"
    by (simp_all add: edges_of_def square_graph_def unit_vertex_def)
  have b: "batch_edges square_graph (gIDs wrong_count_mem) 0 (Suc 0) = [(1, 1), (2, 1)]"
    by (simp add: batch_edges_def ids e)
  have p: "nproc_of square_graph 1 = 0" "nproc_of square_graph 2 = 0"
    by (simp_all add: nproc_of_def square_graph_def unit_vertex_def)
  have z: "nborGIDs wrong_count_mem = (\<lambda>_. 0)" "nborProc wrong_count_mem = (\<lambda>_. 0)"
    "edgeWeights wrong_count_mem = (\<lambda>_. 0)" "oplog wrong_count_mem = []"
    "oplog short_count_mem = []"
    by (simp_all add: wrong_count_mem_def short_count_mem_def fresh_mem_def)
  have m: "show_int 5 = ''5''" "show_int 0 = ''0''" "show_int (- 3) = ''-3''"
    "show_int 1 = ''1''" "show_nat (Suc (Suc 0)) = ''2''"
    by (simp_all add: show_int_def show_nat.simps digit_char_def numeral_2_eq_2 [symmetric])
  have em: "emitted [(1, 1), (2, 1)] 0 wrong_count_mem = wrong_count_mem
            \<lparr>nborGIDs := (\<lambda>j. if j = 0 then 1 else if j = 1 then 2 else 0),
             nborProc := (\<lambda>j. 0),
             edgeWeights := (\<lambda>j. if j < 2 then 1 else 0)\<rparr>"
    by (auto intro!: zoltan_mem.equality
          simp: emitted_def g p z fun_eq_iff nth_Cons' less_Suc_eq numeral_2_eq_2)
  have a1: "getGraphOfGridEdgeList 1 1 3 1 wrong_count_mem =
       Inr (wrong_count_mem
            \<lparr>nborGIDs := (\<lambda>j. if j = 0 then 1 else if j = 1 then 2 else 0),
             nborProc := (\<lambda>j. 0),
             edgeWeights := (\<lambda>j. if j < 2 then 1 else 0),
             oplog := [''getGraphOfGridEdgeList error: Edge number disagreement''
                  @ '' between Zoltan (5) and Graph (2) for vertex with ID 0'' @ [CHR 0x0A]],
             err := 0\<rparr>)"
    using getGraphOfGridEdgeList_status [OF c(1), of 1 3 1] l
    by (simp add: g ids cnt n e b m em z less_Suc_eq le_Suc_eq ZOLTAN_FATAL_def)
  have a2: "getGraphOfGridEdgeList 1 1 1 1 wrong_count_mem =
       Inr (wrong_count_mem
            \<lparr>nborGIDs := (\<lambda>j. if j = 0 then 1 else if j = 1 then 2 else 0),
             nborProc := (\<lambda>j. 0),
             edgeWeights := (\<lambda>j. if j < 2 then 1 else 0),
             err := 1\<rparr>)"
    using getGraphOfGridEdgeList_status [OF c(1), of 0 1 1] l
    by (simp add: g ids cnt n e b em ZOLTAN_OK_def)
  have a3: "getGraphOfGridEdgeList 1 1 1 1 short_count_mem =
       Inr (short_count_mem
            \<lparr>oplog := [''getGraphOfGridEdgeList error: Edge number disagreement''
                  @ '' between Zoltan (-3) and Graph (2) for vertex with ID 1'' @ [CHR 0x0A]],
             err := 0\<rparr>)"
    using getGraphOfGridEdgeList_status [OF c(2), of 0 1 1] l
    by (simp add: g ids cnt n e m z ZOLTAN_FATAL_def)
  have a4: "getGraphOfGridEdgeList 1 1 2 1 stale_mem = Inl LogicError"
    using getGraphOfGridEdgeList_status [OF c(3), of 0 2 1] l
    by simp
  show ?thesis
    using a1 a2 a3 a4 c l by (simp add: g ids cnt n)
qed

section \<open>The expansion of the lists\<close>

lemma inplace_merge_Nil2 [simp]: "inplace_merge xs [] = xs"
  by (simp add: inplace_merge_def)

lemma mset_move_merge_adaptive: "mset (move_merge_adaptive xs ys) = mset xs + mset ys"
  by (induction xs ys rule: move_merge_adaptive.induct) simp_all

lemma mset_move_merge_adaptive_backward:
  "mset (move_merge_adaptive_backward xs ys) = mset xs + mset ys"
  by (induction xs ys rule: move_merge_adaptive_backward.induct) simp_all

lemma mset_inplace_merge: "mset (inplace_merge xs ys) = mset xs + mset ys"
  by (auto simp: inplace_merge_def mset_move_merge_adaptive mset_move_merge_adaptive_backward)

lemma length_inplace_merge: "length (inplace_merge xs ys) = length xs + length ys"
  using mset_inplace_merge [of xs ys, THEN arg_cong, of size] by simp

lemma set_move_merge_adaptive: "set (move_merge_adaptive xs ys) = set xs \<union> set ys"
  using mset_move_merge_adaptive [of xs ys, THEN arg_cong, of set_mset] by simp

lemma set_move_merge_adaptive_backward:
  "set (move_merge_adaptive_backward xs ys) = set xs \<union> set ys"
  using mset_move_merge_adaptive_backward [of xs ys, THEN arg_cong, of set_mset] by simp

lemma sorted_fst_move_merge_adaptive:
  fixes xs ys :: "(int \<times> 'a::linorder) list"
  shows "sorted (map fst xs) \<Longrightarrow> sorted (map fst ys) \<Longrightarrow>
    sorted (map fst (move_merge_adaptive xs ys))"
proof (induction xs ys rule: move_merge_adaptive.induct)
  case (3 x xs y ys)
  show ?case
  proof (cases "y < x")
    case True
    then have "fst y \<le> fst x" by (auto simp: less_prod_def)
    moreover have "sorted (map fst (move_merge_adaptive (x # xs) ys))"
      using 3 True by simp
    ultimately show ?thesis
      using True "3.prems" by (fastforce simp: set_move_merge_adaptive)
  next
    case False
    then have "fst x \<le> fst y" by (auto simp: less_prod_def not_less)
    moreover have "sorted (map fst (move_merge_adaptive xs (y # ys)))"
      using 3 False by simp
    ultimately show ?thesis
      using False "3.prems" by (fastforce simp: set_move_merge_adaptive)
  qed
qed simp_all

lemma descending_fst_move_merge_adaptive_backward:
  fixes xs ys :: "(int \<times> 'a::linorder) list"
  shows "sorted_wrt (\<ge>) (map fst xs) \<Longrightarrow> sorted_wrt (\<ge>) (map fst ys) \<Longrightarrow>
    sorted_wrt (\<ge>) (map fst (move_merge_adaptive_backward xs ys))"
proof (induction xs ys rule: move_merge_adaptive_backward.induct)
  case (3 x xs y ys)
  show ?case
  proof (cases "y < x")
    case True
    then have "fst y \<le> fst x" by (auto simp: less_prod_def)
    moreover have "sorted_wrt (\<ge>) (map fst (move_merge_adaptive_backward xs (y # ys)))"
      using 3 True by simp
    ultimately show ?thesis
      using True "3.prems" by (fastforce simp: set_move_merge_adaptive_backward)
  next
    case False
    then have "fst x \<le> fst y" by (auto simp: less_prod_def not_less)
    moreover have "sorted_wrt (\<ge>) (map fst (move_merge_adaptive_backward (x # xs) ys))"
      using 3 False by simp
    ultimately show ?thesis
      using False "3.prems" by (fastforce simp: set_move_merge_adaptive_backward)
  qed
qed simp_all

lemma sorted_fst_inplace_merge:
  fixes xs ys :: "(int \<times> 'a::linorder) list"
  assumes "sorted (map fst xs)" and "sorted (map fst ys)"
  shows "sorted (map fst (inplace_merge xs ys))"
proof -
  have f: "sorted (map fst (move_merge_adaptive xs ys))"
    using assms by (rule sorted_fst_move_merge_adaptive)
  have "sorted_wrt (\<ge>) (map fst (rev xs))" "sorted_wrt (\<ge>) (map fst (rev ys))"
    using assms by (simp_all add: rev_map [symmetric] sorted_wrt_rev)
  then have "sorted_wrt (\<ge>) (map fst (move_merge_adaptive_backward (rev xs) (rev ys)))"
    by (rule descending_fst_move_merge_adaptive_backward)
  then have b: "sorted (map fst (rev (move_merge_adaptive_backward (rev xs) (rev ys))))"
    by (simp add: rev_map [symmetric] sorted_wrt_rev)
  show ?thesis
    using assms f b by (auto simp: inplace_merge_def sorted_append dest: sorted_wrt_mono_rel)
qed

text \<open>
  Whatever order the sorting leaves tuples of equal id in, the merged list has the tuples
  of both lists and ascending ids.
\<close>

lemma inplace_merge_any_order:
  fixes cellList sorted_list :: "(int \<times> 'a::linorder) list"
  assumes "mset sorted_list = mset addToList" and "sorted (map fst sorted_list)"
  shows "length (inplace_merge cellList sorted_list) = length cellList + length addToList"
    and "mset (inplace_merge cellList sorted_list) = mset cellList + mset addToList"
    and "sorted (map fst cellList) \<Longrightarrow> sorted (map fst (inplace_merge cellList sorted_list))"
proof -
  have "length sorted_list = length addToList"
    using assms(1) by (rule mset_eq_length)
  then show "length (inplace_merge cellList sorted_list) = length cellList + length addToList"
    by (simp add: length_inplace_merge)
  show "mset (inplace_merge cellList sorted_list) = mset cellList + mset addToList"
    by (simp add: mset_inplace_merge assms(1))
  show "sorted (map fst (inplace_merge cellList sorted_list))" if "sorted (map fst cellList)"
    using that assms(2) by (rule sorted_fst_inplace_merge)
qed

lemma expand_loop_empty: "expand_loop [] cs acc = acc"
  by (cases cs) simp_all

text \<open>
  C10. For a graph with no well in its registry, \<^verbatim>\<open>extendImportExportList\<close> returns the
  list it was given: the same tuples in the same order.
\<close>

theorem extendImportExportList_no_wells:
  "getWells gog = [] \<Longrightarrow> extendImportExportList gog cellList = cellList"
  by (simp add: extendImportExportList_def expand_loop_empty)

lemma map_of_build_wellMap:
  "\<forall>w \<in> set ws. w \<noteq> [] \<Longrightarrow> distinct (map hd ws) \<Longrightarrow>
   map_of (build_wellMap ws wm) r = (case well_of ws r of Some w \<Rightarrow> Some w | None \<Rightarrow> map_of wm r)"
proof (induction ws arbitrary: wm)
  case Nil
  show ?case by (simp add: well_of_def)
next
  case (Cons w ws)
  then obtain a as where w: "w = a # as" by (cases w) auto
  have notin: "a \<notin> hd ` set ws" using Cons.prems w by auto
  have none: "well_of ws a = None"
    using notin by (auto simp: well_of_def find_None_iff)
  have "map_of (build_wellMap ws (AList.update a w wm)) r =
      (case well_of ws r of Some w \<Rightarrow> Some w | None \<Rightarrow> map_of (AList.update a w wm) r)"
    using Cons.prems by (intro Cons.IH) auto
  then show ?case
    using none by (auto simp: w well_of_def update_conv' split: option.splits)
qed

lemma expansion_None: "M (fst t) = None \<Longrightarrow> expansion M t = []"
  by (simp add: expansion_def)

lemma expansion_Some:
  "M (fst t) = Some w \<Longrightarrow> expansion M t = map (\<lambda>m. (m, snd t)) (filter (\<lambda>m. m \<noteq> fst t) w)"
  by (simp add: expansion_def)

lemma expansion_empty: "concat (map (expansion Map.empty) cs) = []"
  by (simp add: expansion_None)

lemma expand_loop_eq:
  "\<forall>r \<in> dom (map_of wm). count_list (map fst cs) r \<le> 1 \<Longrightarrow>
   expand_loop wm cs acc = acc @ concat (map (expansion (map_of wm)) cs)"
proof (induction cs arbitrary: wm acc)
  case Nil
  show ?case by simp
next
  case (Cons c cs)
  have tl_once: "\<forall>r \<in> dom (map_of wm). count_list (map fst cs) r \<le> 1"
  proof
    fix r assume "r \<in> dom (map_of wm)"
    then have "count_list (map fst (c # cs)) r \<le> 1" using Cons.prems by blast
    moreover have "count_list (map fst cs) r \<le> count_list (map fst (c # cs)) r" by simp
    ultimately show "count_list (map fst cs) r \<le> 1" by (rule le_trans [rotated])
  qed
  show ?case
  proof (cases "map_of wm (fst c)")
    case None
    show ?thesis
    proof (cases "wm = []")
      case True
      then show ?thesis using None by (simp add: expansion_None)
    next
      case False
      have "expand_loop wm cs acc = acc @ concat (map (expansion (map_of wm)) cs)"
        using tl_once by (intro Cons.IH)
      then show ?thesis using None False by (simp add: expansion_None)
    qed
  next
    case (Some w)
    let ?wm = "AList.delete (fst c) wm"
    let ?acc = "acc @ expansion (map_of wm) c"
    have once: "fst c \<notin> fst ` set cs"
    proof
      assume "fst c \<in> fst ` set cs"
      then have "count_list (map fst cs) (fst c) \<noteq> 0"
        by (simp add: count_list_0_iff)
      moreover have "count_list (map fst (c # cs)) (fst c) \<le> 1"
        using Cons.prems Some by blast
      ultimately show False by simp
    qed
    have same: "map (expansion (map_of ?wm)) cs = map (expansion (map_of wm)) cs"
    proof (rule map_cong [OF refl])
      fix t assume "t \<in> set cs"
      then have "fst t \<noteq> fst c" using once by (metis image_eqI)
      then show "expansion (map_of ?wm) t = expansion (map_of wm) t"
        by (simp add: expansion_def delete_conv')
    qed
    show ?thesis
    proof (cases "?wm = []")
      case True
      then have "map_of ?wm = Map.empty" by simp
      then have "concat (map (expansion (map_of ?wm)) cs) = []"
        by (simp add: expansion_empty)
      then show ?thesis using Some True same by (simp add: expansion_Some Let_def)
    next
      case False
      have "expand_loop ?wm cs ?acc = ?acc @ concat (map (expansion (map_of ?wm)) cs)"
        using tl_once by (intro Cons.IH) (auto simp: delete_conv' split: if_splits)
      then show ?thesis using Some False same by (simp add: expansion_Some Let_def)
    qed
  qed
qed

lemma well_of_SomeD: "well_of ws r = Some w \<Longrightarrow> w \<in> set ws \<and> w \<noteq> [] \<and> hd w = r"
  by (auto simp: well_of_def find_Some_iff)

lemma filter_rep_tl:
  "w \<noteq> [] \<Longrightarrow> sorted_wrt (<) w \<Longrightarrow> filter (\<lambda>m. m \<noteq> hd w) w = tl (w :: int list)"
  by (cases w) (auto simp: filter_id_conv)

lemma expansion_members_added:
  assumes ok: "wells_ok ws"
  shows "expansion (map_of (build_wellMap ws [])) = members_added ws"
proof (rule ext)
  fix t :: "int \<times> 'a"
  have m: "map_of (build_wellMap ws []) (fst t) = well_of ws (fst t)"
    using ok by (simp add: map_of_build_wellMap wells_ok_def split: option.splits)
  show "expansion (map_of (build_wellMap ws [])) t = members_added ws t"
  proof (cases "well_of ws (fst t)")
    case None
    then show ?thesis
      by (simp add: expansion_def members_added_def m)
  next
    case (Some w)
    then have "w \<in> set ws" "w \<noteq> []" "hd w = fst t" using well_of_SomeD by auto
    then have "filter (\<lambda>m. m \<noteq> fst t) w = tl w"
      using ok filter_rep_tl [of w] by (auto simp: wells_ok_def)
    then show ?thesis
      by (simp add: expansion_def members_added_def m Some)
  qed
qed

lemma dom_wellMap:
  "wells_ok ws \<Longrightarrow> r \<in> dom (map_of (build_wellMap ws [])) \<Longrightarrow> r \<in> hd ` set ws"
  by (auto simp: map_of_build_wellMap wells_ok_def split: option.splits dest!: well_of_SomeD)

lemma addToList_eq:
  assumes "wells_ok (wells gog)"
    and "\<forall>w \<in> set (wells gog). count_list (map fst cellList) (hd w) \<le> 1"
  shows "expand_loop (build_wellMap (getWells gog) []) cellList [] =
     concat (map (members_added (wells gog)) cellList)"
proof -
  have "\<forall>r \<in> dom (map_of (build_wellMap (wells gog) [])). count_list (map fst cellList) r \<le> 1"
    using assms dom_wellMap by blast
  then show ?thesis
    by (simp add: expand_loop_eq getWells_def expansion_members_added [OF assms(1)])
qed


lemma sum_list_no_rep:
  "r \<notin> hd ` set ws \<Longrightarrow> (\<Sum>w\<leftarrow>ws. if hd w = r then f w else (0::nat)) = 0"
  by (induction ws) auto

lemma length_members_added:
  assumes "\<forall>w \<in> set ws. w \<noteq> []" and "distinct (map hd ws)"
  shows "length (members_added ws t) = (\<Sum>w\<leftarrow>ws. if hd w = fst t then length w - 1 else 0)"
  using assms
proof (induction ws)
  case Nil
  show ?case by (simp add: members_added_def well_of_def)
next
  case (Cons w ws)
  show ?case
  proof (cases "hd w = fst t")
    case True
    then have "fst t \<notin> hd ` set ws" using Cons.prems by auto
    then have "(\<Sum>w\<leftarrow>ws. if hd w = fst t then length w - 1 else 0) = 0"
      by (rule sum_list_no_rep)
    then show ?thesis using True Cons.prems by (simp add: members_added_def well_of_def)
  next
    case False
    have "length (members_added ws t) = (\<Sum>w\<leftarrow>ws. if hd w = fst t then length w - 1 else 0)"
      using Cons.prems by (intro Cons.IH) auto
    then show ?thesis using False by (simp add: members_added_def well_of_def)
  qed
qed

lemma sum_list_swap:
  "(\<Sum>t\<leftarrow>cs. \<Sum>w\<leftarrow>ws. g w t) = (\<Sum>w\<leftarrow>ws. \<Sum>t\<leftarrow>cs. (g w t :: nat))"
  by (induction cs) (simp_all add: sum_list_addf)

lemma sum_list_once:
  "count_list (map fst cs) r \<le> 1 \<Longrightarrow>
   (\<Sum>t\<leftarrow>cs. if r = fst t then c else 0) = (if r \<in> fst ` set cs then c else (0::nat))"
proof (induction cs)
  case Nil
  show ?case by simp
next
  case (Cons t cs)
  show ?case
  proof (cases "r = fst t")
    case True
    then have "count_list (map fst cs) r = 0" using Cons.prems by simp
    then have "r \<notin> fst ` set cs" by (simp add: count_list_0_iff)
    then have "(\<Sum>t\<leftarrow>cs. if r = fst t then c else 0) = 0"
      by (induction cs) auto
    then show ?thesis using True by simp
  next
    case False
    then show ?thesis using Cons by simp
  qed
qed

lemma length_added:
  assumes "wells_ok ws" and "\<forall>w \<in> set ws. count_list (map fst cs) (hd w) \<le> 1"
  shows "length (concat (map (members_added ws) cs)) =
     (\<Sum>w\<leftarrow>filter (\<lambda>w. hd w \<in> fst ` set cs) ws. length w - 1)"
proof -
  have "length (concat (map (members_added ws) cs)) = (\<Sum>t\<leftarrow>cs. length (members_added ws t))"
    by (simp add: length_concat comp_def)
  also have "\<dots> = (\<Sum>t\<leftarrow>cs. \<Sum>w\<leftarrow>ws. if hd w = fst t then length w - 1 else 0)"
    using assms(1) by (simp add: length_members_added wells_ok_def)
  also have "\<dots> = (\<Sum>w\<leftarrow>ws. \<Sum>t\<leftarrow>cs. if hd w = fst t then length w - 1 else 0)"
    by (rule sum_list_swap)
  also have "\<dots> = (\<Sum>w\<leftarrow>ws. if hd w \<in> fst ` set cs then length w - 1 else 0)"
    using assms(2) by (intro arg_cong [where f = sum_list] map_cong refl sum_list_once) simp
  also have "\<dots> = (\<Sum>w\<leftarrow>filter (\<lambda>w. hd w \<in> fst ` set cs) ws. length w - 1)"
    by (rule sum_list_map_filter' [symmetric])
  finally show ?thesis .
qed

text \<open>
  C1. Let the registry hold non-empty wells with different first ids, and let the list
  hold at most one tuple for the first id of each well. Then the list that
  \<^verbatim>\<open>extendImportExportList\<close> returns
  \<^item> is as long as the list given plus, summed over the wells whose first id is the id
    of some tuple of the list, the size of the well less one;
  \<^item> consists of the tuples given and, for each tuple whose id is the first id of a
    well, one tuple for every other id of the well, with that id and the remaining fields
    of the tuple;
  \<^item> is in ascending order of the ids if the list given was.
\<close>

theorem extendImportExportList_expands:
  fixes cellList :: "(int \<times> 'a::linorder) list"
  assumes "wells_ok (wells gog)"
    and "\<forall>w \<in> set (wells gog). count_list (map fst cellList) (hd w) \<le> 1"
  shows "length (extendImportExportList gog cellList) =
       length cellList +
         (\<Sum>w\<leftarrow>filter (\<lambda>w. hd w \<in> fst ` set cellList) (wells gog). length w - 1)
     \<and> mset (extendImportExportList gog cellList) =
         mset cellList + mset (concat (map (members_added (wells gog)) cellList))
     \<and> (sorted (map fst cellList) \<longrightarrow> sorted (map fst (extendImportExportList gog cellList)))"
proof -
  let ?added = "concat (map (members_added (wells gog)) cellList)"
  have out: "extendImportExportList gog cellList = inplace_merge cellList (sort_key fst ?added)"
    by (simp add: extendImportExportList_def addToList_eq [OF assms])
  have "length (extendImportExportList gog cellList) = length cellList + length ?added"
    by (simp add: out length_inplace_merge)
  moreover have "mset (extendImportExportList gog cellList) = mset cellList + mset ?added"
    by (simp add: out mset_inplace_merge)
  moreover have "sorted (map fst (extendImportExportList gog cellList))"
    if "sorted (map fst cellList)"
    unfolding out using that by (intro sorted_fst_inplace_merge) simp_all
  ultimately show ?thesis
    by (simp add: length_added [OF assms])
qed

theorem extendImportExportList_no_wells_witness:
  "getWells square_graph = [] \<and> extendImportExportList square_graph import_list = import_list"
proof -
  have "getWells square_graph = []" by (simp add: getWells_def square_graph_def)
  then show ?thesis using extendImportExportList_no_wells [of square_graph import_list] by simp
qed

text \<open>
  The expansion test of the repository on the row of cells: seven tuples, the tuple at
  index 5 is the one of cell 8 with the fields of the tuple of cell 5.
\<close>

lemma row_expansion:
  "extendImportExportList row_graph import_list =
     [(0, 1, 0, 1), (1, 1, 0, 1), (2, 1, 0, 1), (3, 4, 1, 2), (5, 0, 1, 3), (8, 0, 1, 3),
      (11, 0, 1, 3)]"
  by (simp add: extendImportExportList_def getWells_def row_graph_def import_list_def Let_def
      inplace_merge_def)

text \<open>
  The two directions of the merge differ on ranges that are not sorted as whole tuples:
  with the longer range first the tuple (1, 4) ends up behind (1, 3), with the shorter
  range first (1, 3) and (1, 5) end up in front of (1, 4).
\<close>

lemma inplace_merge_directions:
  "inplace_merge [(1, 5), (1, 3), (2, 0)] [(1, 4 :: int)] = [(1 :: int, 5), (1, 3), (1, 4), (2, 0)]"
  "inplace_merge [(1, 4 :: int)] [(1, 5), (1, 3), (2, 0)] = [(1 :: int, 4), (1, 5), (1, 3), (2, 0)]"
  by (simp_all add: inplace_merge_def)

lemma row_expansion_long:
  "extendImportExportList row_graph long_import_list =
     [(0, 1, 0, 1), (1, 1, 0, 1), (2, 1, 0, 1), (3, 4, 1, 2), (3, 2, 1, 2), (4, 0, 0, 0),
      (5, 0, 1, 3), (8, 0, 1, 3), (11, 0, 1, 3)]"
  by (simp add: extendImportExportList_def getWells_def row_graph_def long_import_list_def
      Let_def inplace_merge_def)

theorem extendImportExportList_expands_witness:
  "wells_ok (wells row_graph)
   \<and> count_list (map fst import_list) 0 \<le> 1 \<and> count_list (map fst import_list) 5 \<le> 1
   \<and> sorted (map fst import_list)
   \<and> length (extendImportExportList row_graph import_list) = 3 + (2 + 2)
   \<and> mset (extendImportExportList row_graph import_list) =
       mset import_list + mset [(1, 1, 0, 1), (2, 1, 0, 1), (8, 0, 1, 3), (11, 0, 1, 3)]
   \<and> sorted (map fst (extendImportExportList row_graph import_list))
   \<and> count_list (map fst long_import_list) 0 \<le> 1
   \<and> count_list (map fst long_import_list) 5 \<le> 1
   \<and> sorted (map fst long_import_list)
   \<and> length (extendImportExportList row_graph long_import_list) = 5 + (2 + 2)
   \<and> mset (extendImportExportList row_graph long_import_list) =
       mset long_import_list + mset [(1, 1, 0, 1), (2, 1, 0, 1), (8, 0, 1, 3), (11, 0, 1, 3)]
   \<and> sorted (map fst (extendImportExportList row_graph long_import_list))"
proof -
  have w: "wells row_graph = [[0, 1, 2], [5, 8, 11]]" by (simp add: row_graph_def)
  have ok: "wells_ok (wells row_graph)" by (simp add: w wells_ok_def)
  have c: "count_list (map fst import_list) 0 \<le> 1" "count_list (map fst import_list) 5 \<le> 1"
    "count_list (map fst long_import_list) 0 \<le> 1"
    "count_list (map fst long_import_list) 5 \<le> 1"
    by (simp_all add: import_list_def long_import_list_def)
  then have once: "\<forall>w \<in> set (wells row_graph). count_list (map fst import_list) (hd w) \<le> 1"
    and once': "\<forall>w \<in> set (wells row_graph). count_list (map fst long_import_list) (hd w) \<le> 1"
    by (simp_all add: w)
  have s: "sorted (map fst import_list)" "sorted (map fst long_import_list)"
    by (simp_all add: import_list_def long_import_list_def)
  have f: "filter (\<lambda>w. hd w \<in> fst ` set import_list) (wells row_graph) = [[0, 1, 2], [5, 8, 11]]"
    "filter (\<lambda>w. hd w \<in> fst ` set long_import_list) (wells row_graph) = [[0, 1, 2], [5, 8, 11]]"
    by (simp_all add: w import_list_def long_import_list_def)
  have a: "concat (map (members_added (wells row_graph)) import_list) =
      [(1, 1, 0, 1), (2, 1, 0, 1), (8, 0, 1, 3), (11, 0, 1, 3)]"
    "concat (map (members_added (wells row_graph)) long_import_list) =
      [(1, 1, 0, 1), (2, 1, 0, 1), (8, 0, 1, 3), (11, 0, 1, 3)]"
    by (simp_all add: w import_list_def long_import_list_def members_added_def well_of_def)
  have l: "length import_list = 3" "length long_import_list = 5"
    by (simp_all add: import_list_def long_import_list_def)
  note t = extendImportExportList_expands [OF ok once, unfolded f a l]
  note t' = extendImportExportList_expands [OF ok once', unfolded f a l]
  show ?thesis
    using t t' ok c s by simp
qed

section \<open>What a contraction does\<close>

lemma joined_commute: "joined x y = joined y x"
  by (cases x; cases y) simp_all

lemma joined_None2 [simp]: "joined x None = x"
  by (cases x) simp_all

lemma map_of_erase_edge: "map_of (erase_edge k es) k' = (if k' = k then None else map_of es k')"
  by (induction es) (auto simp: erase_edge_def)

lemma map_of_insort_fresh:
  "k \<notin> fst ` set es \<Longrightarrow> map_of (insort_key fst (k, w) es) k' = (if k' = k then Some w else map_of es k')"
  by (induction es) auto

lemma map_of_bump:
  "map_of (map (\<lambda>e. if fst e = k then (k, snd e + w) else e) es) k' =
     (if k' = k then map_option (\<lambda>w'. w' + w) (map_of es k) else map_of es (k'::int))"
  by (induction es) auto

lemma map_of_add_edge:
  "map_of (add_edge k w es) k' = (if k' = k then joined (map_of es k) (Some w) else map_of es k')"
proof (cases "k \<in> fst ` set es")
  case True
  then obtain w' where "map_of es k = Some w'"
    by (metis domD dom_map_of_conv_image_fst)
  then show ?thesis using True by (simp add: add_edge_def map_of_bump)
next
  case False
  then have "map_of es k = None" by (simp add: map_of_eq_None_iff)
  then show ?thesis using False by (simp add: add_edge_def map_of_insort_fresh)
qed

lemma map_of_merge_edges:
  "distinct (map fst fs) \<Longrightarrow>
   map_of (merge_edges es fs) k = joined (map_of es k) (map_of fs k)"
  unfolding merge_edges_def
proof (induction fs arbitrary: es)
  case Nil
  show ?case by simp
next
  case (Cons f fs)
  have none: "fst f = k \<Longrightarrow> map_of fs k = None"
    using Cons.prems by (auto simp: map_of_eq_None_iff)
  have "map_of (fold (\<lambda>e. add_edge (fst e) (snd e)) fs (add_edge (fst f) (snd f) es)) k =
      joined (map_of (add_edge (fst f) (snd f) es) k) (map_of fs k)"
    using Cons.prems by (intro Cons.IH) simp
  then show ?case
    using none by (cases f) (auto simp: map_of_add_edge)
qed

lemma map_of_redirect:
  "rep \<noteq> removed \<Longrightarrow>
   map_of (edges (redirect removed rep v)) k =
     (if k = removed then None
      else if k = rep then joined (map_of (edges v) rep) (map_of (edges v) removed)
      else map_of (edges v) k)"
  by (auto simp: redirect_def map_of_add_edge map_of_erase_edge split: option.splits)

lemma map_of_contracted:
  "map_of (map (\<lambda>v. if fst v = rep then (rep, merged) else (fst v, F (snd v)))
       (filter (\<lambda>v. fst v \<noteq> removed) vs)) k =
     (if k = removed then None
      else if k = rep then (case map_of vs k of None \<Rightarrow> None | Some _ \<Rightarrow> Some merged)
      else map_option F (map_of vs k))"
  by (induction vs) auto

lemma length_filter_removed:
  "distinct (map fst vs) \<Longrightarrow> map_of vs k = Some v \<Longrightarrow>
   length (filter (\<lambda>v. fst v \<noteq> k) vs) = length vs - 1"
proof (induction vs)
  case Nil
  then show ?case by simp
next
  case (Cons x xs)
  show ?case
  proof (cases "fst x = k")
    case True
    then have "k \<notin> fst ` set xs" using Cons.prems by auto
    then have "filter (\<lambda>v. fst v \<noteq> k) xs = xs" by (auto simp: filter_id_conv)
    then show ?thesis using True by simp
  next
    case False
    then have "map_of xs k = Some v" using Cons.prems by (cases x) (auto split: if_splits)
    then have "length (filter (\<lambda>v. fst v \<noteq> k) xs) = length xs - 1" "xs \<noteq> []"
      using Cons by auto
    then show ?thesis using False by (cases xs) auto
  qed
qed


lemma contractVertices_sym: "contractVertices a b g = contractVertices b a g"
  by (auto simp: contractVertices_def Let_def min_def max_def split: option.splits)

lemma contractVertices_lt:
  assumes "a < b" and "map_of (vertices g) a = Some va" and "map_of (vertices g) b = Some vb"
  shows "contractVertices a b g =
     Inr (g\<lparr>vertices :=
              map (\<lambda>v. if fst v = a
                        then (a, va\<lparr>weight := weight va + weight vb,
                                   edges := merge_edges (erase_edge b (edges va))
                                              (erase_edge a (edges vb))\<rparr>)
                        else (fst v, redirect b a (snd v)))
                (filter (\<lambda>v. fst v \<noteq> b) (vertices g))\<rparr>)"
  using assms by (simp add: contractVertices_def Let_def min_def max_def)

lemma contractVertices_InrD:
  assumes "contractVertices a b g = Inr g'"
  shows "a \<noteq> b \<and> live g a \<and> live g b"
  using assms by (auto simp: contractVertices_def live_def split: option.splits if_splits)

lemma graph_ok_edges:
  "graph_ok g \<Longrightarrow> map_of (vertices g) k = Some v \<Longrightarrow> distinct (map fst (edges v))"
proof -
  assume ok: "graph_ok g" and "map_of (vertices g) k = Some v"
  then have "(k, v) \<in> set (vertices g)" by (simp add: map_of_SomeD)
  then have "sorted_wrt (<) (map fst (edges v))" using ok by (force simp: graph_ok_def)
  then show ?thesis by (simp add: strict_sorted_iff)
qed


lemma distinct_erase_edge: "distinct (map fst es) \<Longrightarrow> distinct (map fst (erase_edge k es))"
  by (simp add: erase_edge_def distinct_map_filter)

lemma contract_lt_props:
  assumes ok: "graph_ok g" and lt: "a < b"
    and va: "map_of (vertices g) a = Some va" and vb: "map_of (vertices g) b = Some vb"
  shows "\<exists>g'. contractVertices a b g = Inr g'
      \<and> gog_size g' = gog_size g - 1 \<and> live g' a \<and> \<not> live g' b
      \<and> vertexWeight g' a = Some (weight va + weight vb)
      \<and> (\<forall>v. live g v \<and> v \<noteq> a \<and> v \<noteq> b \<longrightarrow>
            live g' v
            \<and> edgeWeight g' v a = joined (edgeWeight g v a) (edgeWeight g v b)
            \<and> edgeWeight g' a v = joined (edgeWeight g a v) (edgeWeight g b v))"
proof -
  define merged where "merged = va\<lparr>weight := weight va + weight vb,
      edges := merge_edges (erase_edge b (edges va)) (erase_edge a (edges vb))\<rparr>"
  define g' where "g' = g\<lparr>vertices :=
      map (\<lambda>v. if fst v = a then (a, merged) else (fst v, redirect b a (snd v)))
        (filter (\<lambda>v. fst v \<noteq> b) (vertices g))\<rparr>"
  have res: "contractVertices a b g = Inr g'"
    unfolding g'_def merged_def by (rule contractVertices_lt [OF lt va vb])
  have look: "map_of (vertices g') k =
      (if k = b then None else if k = a then Some merged
       else map_option (redirect b a) (map_of (vertices g) k))" for k
    using va by (simp add: g'_def map_of_contracted)
  have dist: "distinct (map fst (vertices g))" using ok by (simp add: graph_ok_def)
  have "length (vertices g') = length (vertices g) - 1"
    using length_filter_removed [OF dist vb] by (simp add: g'_def)
  moreover have "vertices g \<noteq> []" using va by auto
  ultimately have size: "gog_size g' = gog_size g - 1"
    by (cases "vertices g") (simp_all add: gog_size_def)
  have la: "live g' a" and lb: "\<not> live g' b"
    using lt by (simp_all add: live_def look)
  have wa: "vertexWeight g' a = Some (weight va + weight vb)"
    using lt by (simp add: vertexWeight_def look merged_def)
  have db: "distinct (map fst (erase_edge a (edges vb)))"
    using graph_ok_edges [OF ok vb] by (rule distinct_erase_edge)
  have others: "live g' v \<and> edgeWeight g' v a = joined (edgeWeight g v a) (edgeWeight g v b)
      \<and> edgeWeight g' a v = joined (edgeWeight g a v) (edgeWeight g b v)"
    if v: "live g v" "v \<noteq> a" "v \<noteq> b" for v
  proof -
    from v obtain p where p: "map_of (vertices g) v = Some p" by (auto simp: live_def)
    have 1: "live g' v" using v p by (simp add: live_def look)
    have 2: "edgeWeight g' v a = joined (edgeWeight g v a) (edgeWeight g v b)"
      using v p lt by (simp add: edgeWeight_def look map_of_redirect)
    have "edgeWeight g' a v = map_of (edges merged) v"
      using lt by (simp add: edgeWeight_def look)
    also have "\<dots> = joined (map_of (erase_edge b (edges va)) v) (map_of (erase_edge a (edges vb)) v)"
      by (simp add: merged_def map_of_merge_edges [OF db])
    also have "\<dots> = joined (edgeWeight g a v) (edgeWeight g b v)"
      using v by (simp add: map_of_erase_edge edgeWeight_def va vb)
    finally show ?thesis using 1 2 by simp
  qed
  show ?thesis
    using res size la lb wa others by blast
qed


lemma contract_lt_frame:
  assumes lt: "a < b" and res: "contractVertices a b g = Inr g'"
  shows "wells g' = wells g \<and> grid g' = grid g
     \<and> map fst (vertices g') = filter (\<lambda>k. k \<noteq> b) (map fst (vertices g))
     \<and> (\<forall>k. live g' k \<longrightarrow> live g k)"
proof -
  from res obtain va vb where va: "map_of (vertices g) a = Some va"
    and vb: "map_of (vertices g) b = Some vb"
    using contractVertices_InrD [OF res] by (auto simp: live_def)
  note eq = res [unfolded contractVertices_lt [OF lt va vb], simplified]
  have keys: "map fst (vertices g') = filter (\<lambda>k. k \<noteq> b) (map fst (vertices g))"
    unfolding eq [symmetric] by (simp add: filter_map comp_def if_distrib [of fst] cong: if_cong)
  have "live g k" if "live g' k" for k
  proof -
    from that have "k \<in> set (map fst (vertices g'))"
      by (simp add: live_def map_of_eq_None_iff)
    then have "k \<in> set (map fst (vertices g))" unfolding keys by simp
    then show ?thesis by (simp add: live_def map_of_eq_None_iff)
  qed
  then show ?thesis using keys eq [symmetric] by simp
qed

lemma contract_frame:
  assumes res: "contractVertices a b g = Inr g'"
  shows "wells g' = wells g \<and> grid g' = grid g
     \<and> map fst (vertices g') = filter (\<lambda>k. k \<noteq> max a b) (map fst (vertices g))
     \<and> (\<forall>k. live g' k \<longrightarrow> live g k)"
proof (cases "a < b")
  case True
  then show ?thesis using contract_lt_frame [OF True res] by (simp add: max_def)
next
  case False
  then have lt: "b < a" using contractVertices_InrD [OF res] by simp
  have "contractVertices b a g = Inr g'" using res by (simp add: contractVertices_sym)
  then show ?thesis using contract_lt_frame [OF lt] lt by (simp add: max_def)
qed

lemma contractMany_live_mono:
  "contractMany ps g = Inr g' \<Longrightarrow> live g' k \<Longrightarrow> live g k"
proof (induction ps arbitrary: g)
  case Nil
  then show ?case by simp
next
  case (Cons p ps)
  then obtain g1 where 1: "contractVertices (fst p) (snd p) g = Inr g1"
    and 2: "contractMany ps g1 = Inr g'"
    by (auto split: sum.splits)
  have "live g1 k" using Cons.IH [OF 2 Cons.prems(2)] .
  then show ?case using contract_frame [OF 1] by blast
qed



lemma weight_redirect [simp]: "weight (redirect removed rep v) = weight v"
  by (simp add: redirect_def split: option.splits)

lemma sum_list_at_key:
  fixes h :: "int \<times> 'b \<Rightarrow> real"
  shows "distinct (map fst vs) \<Longrightarrow> map_of vs k = Some v \<Longrightarrow>
    (\<Sum>x\<leftarrow>vs. if fst x = k then h x else 0) = h (k, v)"
proof (induction vs)
  case Nil
  then show ?case by simp
next
  case (Cons x xs)
  show ?case
  proof (cases "fst x = k")
    case True
    then have "k \<notin> fst ` set xs" using Cons.prems by auto
    then have "(\<Sum>x\<leftarrow>xs. if fst x = k then h x else 0) = 0"
      by (induction xs) auto
    moreover have "x = (k, v)" using True Cons.prems(2) by (cases x) simp
    ultimately show ?thesis by simp
  next
    case False
    then have "map_of xs k = Some v" using Cons.prems(2) by (cases x) (simp split: if_splits)
    then show ?thesis using False Cons by simp
  qed
qed

lemma contract_lt_total:
  assumes dist: "distinct (map fst (vertices g))" and lt: "a < b"
    and res: "contractVertices a b g = Inr g'"
  shows "totalWeight g' = totalWeight g"
proof -
  from res obtain va vb where va: "map_of (vertices g) a = Some va"
    and vb: "map_of (vertices g) b = Some vb"
    using contractVertices_InrD [OF res] by (auto simp: live_def)
  define merged where "merged = va\<lparr>weight := weight va + weight vb,
      edges := merge_edges (erase_edge b (edges va)) (erase_edge a (edges vb))\<rparr>"
  have g': "vertices g' =
      map (\<lambda>v. if fst v = a then (a, merged) else (fst v, redirect b a (snd v)))
        (filter (\<lambda>v. fst v \<noteq> b) (vertices g))"
    using res [unfolded contractVertices_lt [OF lt va vb]] by (auto simp: merged_def)
  have pt: "(if fst x \<noteq> b
       then weight (snd (if fst x = a then (a, merged) else (fst x, redirect b a (snd x))))
       else 0) =
      weight (snd x) - (if fst x = b then weight (snd x) else 0)
        + (if fst x = a then weight vb else 0)"
    if "x \<in> set (vertices g)" for x
  proof (cases "fst x = a")
    case True
    then have "map_of (vertices g) a = Some (snd x)"
      using that dist by (cases x) auto
    then have "snd x = va" using va by simp
    then show ?thesis using True lt by (simp add: merged_def)
  next
    case False
    then show ?thesis by simp
  qed
  have "totalWeight g' =
      (\<Sum>x\<leftarrow>vertices g. if fst x \<noteq> b
         then weight (snd (if fst x = a then (a, merged) else (fst x, redirect b a (snd x))))
         else 0)"
    by (simp add: totalWeight_def g' comp_def sum_list_map_filter')
  also have "\<dots> = (\<Sum>x\<leftarrow>vertices g. weight (snd x) - (if fst x = b then weight (snd x) else 0)
        + (if fst x = a then weight vb else 0))"
    by (intro arg_cong [where f = sum_list] map_cong refl pt)
  also have "\<dots> = totalWeight g - (\<Sum>x\<leftarrow>vertices g. if fst x = b then weight (snd x) else 0)
        + (\<Sum>x\<leftarrow>vertices g. if fst x = a then weight vb else 0)"
    by (simp add: sum_list_addf sum_list_subtractf totalWeight_def)
  also have "\<dots> = totalWeight g - weight vb + weight vb"
    using sum_list_at_key [OF dist vb, of "\<lambda>x. weight (snd x)"]
      sum_list_at_key [OF dist va, of "\<lambda>x. weight vb"]
    by simp
  finally show ?thesis by simp
qed

lemma contract_lt_weight:
  assumes lt: "a < b" and res: "contractVertices a b g = Inr g'"
  shows "\<exists>wa wb. vertexWeight g a = Some wa \<and> vertexWeight g b = Some wb
      \<and> vertexWeight g' a = Some (wa + wb)"
proof -
  from res obtain va vb where va: "map_of (vertices g) a = Some va"
    and vb: "map_of (vertices g) b = Some vb"
    using contractVertices_InrD [OF res] by (auto simp: live_def)
  have "vertexWeight g' a = Some (weight va + weight vb)"
    using res [unfolded contractVertices_lt [OF lt va vb]] lt va
    by (auto simp: vertexWeight_def map_of_contracted)
  then show ?thesis by (simp add: vertexWeight_def va vb)
qed

lemma contract_total:
  assumes dist: "distinct (map fst (vertices g))" and res: "contractVertices a b g = Inr g'"
  shows "totalWeight g' = totalWeight g \<and> distinct (map fst (vertices g'))"
proof -
  have d: "distinct (map fst (vertices g'))"
    using contract_frame [OF res] dist by simp
  show ?thesis
  proof (cases "a < b")
    case True
    then show ?thesis using contract_lt_total [OF dist True res] d by simp
  next
    case False
    then have lt: "b < a" using contractVertices_InrD [OF res] by simp
    have "contractVertices b a g = Inr g'" using res by (simp add: contractVertices_sym [of a b])
    then show ?thesis using contract_lt_total [OF dist lt] d by simp
  qed
qed

lemma contractMany_total:
  "distinct (map fst (vertices g)) \<Longrightarrow> contractMany ps g = Inr g' \<Longrightarrow>
   totalWeight g' = totalWeight g"
proof (induction ps arbitrary: g)
  case Nil
  then show ?case by simp
next
  case (Cons p ps)
  then obtain g1 where 1: "contractVertices (fst p) (snd p) g = Inr g1"
    and 2: "contractMany ps g1 = Inr g'"
    by (auto split: sum.splits)
  have "totalWeight g1 = totalWeight g" "distinct (map fst (vertices g1))"
    using contract_total [OF Cons.prems(1) 1] by simp_all
  then show ?case using Cons.IH [OF _ 2] by simp
qed

text \<open>
  C4. For a graph that holds every vertex id once, the sum of the weights of the live
  vertices after any sequence of contractions is the sum before it; and after one
  contraction the representative has the sum of the weights of the two vertices.
\<close>

theorem contraction_conserves_weight:
  assumes "distinct (map fst (vertices g))"
  shows "(\<forall>ps g'. contractMany ps g = Inr g' \<longrightarrow> totalWeight g' = totalWeight g)
     \<and> (\<forall>a b g'. contractVertices a b g = Inr g' \<longrightarrow>
          (\<exists>wa wb. vertexWeight g a = Some wa \<and> vertexWeight g b = Some wb
             \<and> vertexWeight g' (min a b) = Some (wa + wb)))"
proof (intro conjI allI impI)
  fix ps g' assume "contractMany ps g = Inr g'"
  then show "totalWeight g' = totalWeight g" using assms by (rule contractMany_total [rotated])
next
  fix a b g' assume res: "contractVertices a b g = Inr g'"
  show "\<exists>wa wb. vertexWeight g a = Some wa \<and> vertexWeight g b = Some wb
             \<and> vertexWeight g' (min a b) = Some (wa + wb)"
  proof (cases "a < b")
    case True
    then show ?thesis using contract_lt_weight [OF True res] by (simp add: min_def)
  next
    case False
    then have lt: "b < a" using contractVertices_InrD [OF res] by simp
    have "contractVertices b a g = Inr g'" using res by (simp add: contractVertices_sym [of a b])
    from contract_lt_weight [OF lt this] obtain wb wa where
      "vertexWeight g b = Some wb" "vertexWeight g a = Some wa"
      "vertexWeight g' b = Some (wb + wa)" by blast
    then show ?thesis using lt by (simp add: min_def add.commute)
  qed
qed

lemma square_ok: "graph_ok square_graph"
  by (simp add: graph_ok_def square_graph_def unit_vertex_def)

lemma square_01_ok: "graph_ok square_01"
  by (simp add: graph_ok_def square_01_def unit_vertex_def)

lemma square_contract_01: "contractVertices 0 1 square_graph = Inr square_01"
  by (simp add: contractVertices_def square_graph_def square_01_def unit_vertex_def Let_def
      merge_edges_def erase_edge_def add_edge_def redirect_def)

lemma square_01_live: "live square_01 i \<longleftrightarrow> i \<in> {0, 2, 3}"
  by (simp add: live_def square_01_def)


lemma square_distinct: "distinct (map fst (vertices square_graph))"
  by (simp add: square_graph_def)

lemma square_weights:
  "totalWeight square_graph = 4" "vertexWeight square_graph 0 = Some 1"
  "vertexWeight square_graph 1 = Some 1"
  by (simp_all add: totalWeight_def vertexWeight_def square_graph_def unit_vertex_def)

lemma square_contract_many: "\<exists>g'. contractMany [(0, 1), (2, 0)] square_graph = Inr g'"
proof -
  have "contractMany [(0, 1), (2, 0)] square_graph = contractMany [(2, 0)] square_01"
    by (simp add: square_contract_01)
  moreover have "\<exists>g'. contractMany [(2, 0)] square_01 = Inr g'"
    by (simp add: contractVertices_def square_01_def unit_vertex_def Let_def)
  ultimately show ?thesis by simp
qed

theorem contraction_conserves_weight_witness:
  "distinct (map fst (vertices square_graph))
   \<and> (\<exists>g'. contractMany [(0, 1), (2, 0)] square_graph = Inr g' \<and> totalWeight g' = 4)
   \<and> (\<exists>g'. contractVertices 0 1 square_graph = Inr g' \<and> vertexWeight g' 0 = Some 2)"
proof -
  note t = contraction_conserves_weight [OF square_distinct]
  from square_contract_many t have 1:
    "\<exists>g'. contractMany [(0, 1), (2, 0)] square_graph = Inr g' \<and> totalWeight g' = 4"
    by (metis square_weights(1))
  from t square_contract_01 have
    "\<exists>wa wb. vertexWeight square_graph 0 = Some wa \<and> vertexWeight square_graph 1 = Some wb
       \<and> vertexWeight square_01 (min 0 1) = Some (wa + wb)"
    by blast
  then have 2: "\<exists>g'. contractVertices 0 1 square_graph = Inr g' \<and> vertexWeight g' 0 = Some 2"
    using square_contract_01 by (auto simp: square_weights)
  show ?thesis using square_distinct 1 2 by simp
qed

section \<open>Adding a well to the registry\<close>

lemma set_insert_id [simp]: "set (insert_id x xs) = insert x (set xs)"
  by (auto simp: insert_id_def set_insort_key)

lemma set_union_ids [simp]: "set (union_ids xs ys) = set xs \<union> set ys"
  unfolding union_ids_def by (induction ys arbitrary: xs) auto

lemma overlaps_union:
  "overlaps (union_ids c w) w' \<longleftrightarrow> overlaps c w' \<or> overlaps w w'"
  by (auto simp: overlaps_def)

lemma mergeOverlapping_parts:
  "disjoint_wells ws \<Longrightarrow>
   fst (snd (mergeOverlapping c ws)) = filter (\<lambda>w. \<not> overlaps c w) ws
   \<and> snd (snd (mergeOverlapping c ws)) = filter (overlaps c) ws"
proof (induction ws arbitrary: c)
  case Nil
  show ?case by simp
next
  case (Cons w ws)
  then have d: "disjoint_wells ws" and nw: "\<forall>w' \<in> set ws. \<not> overlaps w w'" by simp_all
  show ?case
  proof (cases "overlaps c w")
    case True
    have same: "overlaps (union_ids c w) w' = overlaps c w'" if "w' \<in> set ws" for w'
      using that nw by (simp add: overlaps_union)
    have f1: "filter (\<lambda>w'. \<not> overlaps (union_ids c w) w') ws = filter (\<lambda>w'. \<not> overlaps c w') ws"
      by (rule filter_cong) (simp_all add: same)
    have f2: "filter (overlaps (union_ids c w)) ws = filter (overlaps c) ws"
      by (rule filter_cong) (simp_all add: same)
    show ?thesis
      using True Cons.IH [OF d, of "union_ids c w"]
      by (simp add: f1 f2 case_prod_beta)
  next
    case False
    show ?thesis
      using False Cons.IH [OF d, of c]
      by (simp add: case_prod_beta)
  qed
qed

lemma mergeOverlapping_eq:
  "disjoint_wells ws \<Longrightarrow>
   mergeOverlapping c ws =
     (fst (mergeOverlapping c ws), filter (\<lambda>w. \<not> overlaps c w) ws, filter (overlaps c) ws)"
  using mergeOverlapping_parts [of ws c] by (metis prod.collapse)

lemma set_mergeOverlapping:
  "mergeOverlapping c ws = (merged, kept, taken) \<Longrightarrow>
   set merged = set c \<union> \<Union> (set ` set taken)"
proof (induction ws arbitrary: c merged kept taken)
  case Nil
  then show ?case by simp
next
  case (Cons w ws)
  show ?case
  proof (cases "overlaps c w")
    case True
    with Cons.prems obtain taken' where
      m: "mergeOverlapping (union_ids c w) ws = (merged, kept, taken')" and t: "taken = w # taken'"
      by (auto split: prod.splits)
    show ?thesis using Cons.IH [OF m] t by auto
  next
    case False
    with Cons.prems obtain kept' where
      m: "mergeOverlapping c ws = (merged, kept', taken)"
      by (auto split: prod.splits)
    show ?thesis using Cons.IH [OF m] by simp
  qed
qed

lemma contractAll_wells:
  "contractAll rep others contracted g = Inr g' \<Longrightarrow> wells g' = wells g"
proof (induction others arbitrary: g)
  case Nil
  then show ?case by simp
next
  case (Cons x xs)
  show ?case
  proof (cases "x \<in> set contracted \<and> \<not> live g x")
    case True
    then show ?thesis using Cons by simp
  next
    case False
    with Cons.prems obtain g1 where 1: "contractVertices rep x g = Inr g1"
      and 2: "contractAll rep xs contracted g1 = Inr g'"
      by (auto split: sum.splits)
    show ?thesis using Cons.IH [OF 2] contract_frame [OF 1] by simp
  qed
qed

lemma addWell_wells:
  assumes "addWell cellIds check g = Inr g'"
    and "(if check then mergeOverlapping cellIds (wells g) else (cellIds, wells g, []))
          = (merged, kept, taken)"
    and "2 \<le> length merged"
  shows "wells g' = kept @ [merged]"
proof -
  from assms(3) obtain rep x others where m: "merged = rep # x # others"
    by (cases merged; cases "tl merged") auto
  from assms(1) obtain g1 where
    "contractAll rep (x # others) (concat taken) g = Inr g1" "g' = g1\<lparr>wells := kept @ [merged]\<rparr>"
    unfolding addWell_def assms(2) by (auto simp: m split: sum.splits)
  then show ?thesis by simp
qed

text \<open>
  C5. Let no two wells of the registry have an id in common, and let \<^verbatim>\<open>addWell\<close> with the
  check of intersections succeed on a set of ids that, united with the wells it overlaps,
  has at least two members. If the set overlaps \<open>k\<close> wells of the registry, the registry
  has its former number of wells less \<open>k\<close> plus one afterwards: the wells that do not
  overlap stay as they are, and one well takes the place of the others, holding the ids
  given and the ids of every overlapped well.
\<close>

theorem addWell_registry_size:
  assumes "disjoint_wells (wells g)" and "addWell cellIds True g = Inr g'"
    and "2 \<le> length (fst (mergeOverlapping cellIds (wells g)))"
  shows "int (length (wells g')) =
       int (length (wells g)) - int (length (filter (overlaps cellIds) (wells g))) + 1
     \<and> wells g' = filter (\<lambda>w. \<not> overlaps cellIds w) (wells g)
                    @ [fst (mergeOverlapping cellIds (wells g))]
     \<and> set (fst (mergeOverlapping cellIds (wells g))) =
         set cellIds \<union> \<Union> (set ` set (filter (overlaps cellIds) (wells g)))"
proof -
  let ?m = "fst (mergeOverlapping cellIds (wells g))"
  let ?kept = "filter (\<lambda>w. \<not> overlaps cellIds w) (wells g)"
  let ?taken = "filter (overlaps cellIds) (wells g)"
  have eq: "mergeOverlapping cellIds (wells g) = (?m, ?kept, ?taken)"
    using assms(1) by (rule mergeOverlapping_eq)
  have "(if True then mergeOverlapping cellIds (wells g) else (cellIds, wells g, []))
      = (?m, ?kept, ?taken)"
    using eq by simp
  from addWell_wells [OF assms(2) this assms(3)]
  have w: "wells g' = ?kept @ [?m]" .
  have "length ?taken + length ?kept = length (wells g)"
    by (rule sum_length_filter_compl)
  then have n: "int (length (wells g')) = int (length (wells g)) - int (length ?taken) + 1"
    by (simp add: w)
  show ?thesis using n w set_mergeOverlapping [OF eq] by simp
qed


lemma row_wells: "wells row_graph = [[0, 1, 2], [5, 8, 11]]"
  by (simp add: row_graph_def)

lemma row_disjoint: "disjoint_wells (wells row_graph)"
  by (simp add: row_wells overlaps_def)

lemma row_scans:
  "mergeOverlapping [6, 7] [[0, 1, 2], [5, 8, 11]] = ([6, 7], [[0, 1, 2], [5, 8, 11]], [])"
  "mergeOverlapping [2, 3] [[0, 1, 2], [5, 8, 11]] = ([0, 1, 2, 3], [[5, 8, 11]], [[0, 1, 2]])"
  "mergeOverlapping [2, 5] [[0, 1, 2], [5, 8, 11]] =
     ([0, 1, 2, 5, 8, 11], [], [[0, 1, 2], [5, 8, 11]])"
  by (simp_all add: overlaps_def union_ids_def insert_id_def)

lemma row_addWell:
  "\<exists>g'. addWell [6, 7] True row_graph = Inr g'"
  "\<exists>g'. addWell [2, 3] True row_graph = Inr g'"
  "\<exists>g'. addWell [2, 5] True row_graph = Inr g'"
  unfolding addWell_def row_wells row_scans
  by (simp_all add: live_def contractVertices_def row_graph_def unit_vertex_def Let_def)

theorem addWell_registry_size_witness:
  "disjoint_wells (wells row_graph)
   \<and> 2 \<le> length (fst (mergeOverlapping [6, 7] (wells row_graph)))
   \<and> 2 \<le> length (fst (mergeOverlapping [2, 3] (wells row_graph)))
   \<and> 2 \<le> length (fst (mergeOverlapping [2, 5] (wells row_graph)))
   \<and> (\<exists>g'. addWell [6, 7] True row_graph = Inr g' \<and> int (length (wells g')) = 2 - 0 + 1
         \<and> wells g' = [[0, 1, 2], [5, 8, 11], [6, 7]])
   \<and> (\<exists>g'. addWell [2, 3] True row_graph = Inr g' \<and> int (length (wells g')) = 2 - 1 + 1
         \<and> wells g' = [[5, 8, 11], [0, 1, 2, 3]])
   \<and> (\<exists>g'. addWell [2, 5] True row_graph = Inr g' \<and> int (length (wells g')) = 2 - 2 + 1
         \<and> wells g' = [[0, 1, 2, 5, 8, 11]])"
proof -
  have n: "2 \<le> length (fst (mergeOverlapping [6, 7] (wells row_graph)))"
    "2 \<le> length (fst (mergeOverlapping [2, 3] (wells row_graph)))"
    "2 \<le> length (fst (mergeOverlapping [2, 5] (wells row_graph)))"
    unfolding row_wells row_scans by simp_all
  have f: "filter (overlaps [6, 7]) (wells row_graph) = []"
    "filter (overlaps [2, 3]) (wells row_graph) = [[0, 1, 2]]"
    "filter (overlaps [2, 5]) (wells row_graph) = [[0, 1, 2], [5, 8, 11]]"
    "filter (\<lambda>w. \<not> overlaps [6, 7] w) (wells row_graph) = [[0, 1, 2], [5, 8, 11]]"
    "filter (\<lambda>w. \<not> overlaps [2, 3] w) (wells row_graph) = [[5, 8, 11]]"
    "filter (\<lambda>w. \<not> overlaps [2, 5] w) (wells row_graph) = []"
    by (simp_all add: row_wells overlaps_def)
  from row_addWell(1) obtain g1 where g1: "addWell [6, 7] True row_graph = Inr g1" ..
  from row_addWell(2) obtain g2 where g2: "addWell [2, 3] True row_graph = Inr g2" ..
  from row_addWell(3) obtain g3 where g3: "addWell [2, 5] True row_graph = Inr g3" ..
  have 1: "int (length (wells g1)) = 2 - 0 + 1 \<and> wells g1 = [[0, 1, 2], [5, 8, 11], [6, 7]]"
    using addWell_registry_size [OF row_disjoint g1 n(1)]
    unfolding f unfolding row_wells row_scans by simp
  have 2: "int (length (wells g2)) = 2 - 1 + 1 \<and> wells g2 = [[5, 8, 11], [0, 1, 2, 3]]"
    using addWell_registry_size [OF row_disjoint g2 n(2)]
    unfolding f unfolding row_wells row_scans by simp
  have 3: "int (length (wells g3)) = 2 - 2 + 1 \<and> wells g3 = [[0, 1, 2, 5, 8, 11]]"
    using addWell_registry_size [OF row_disjoint g3 n(3)]
    unfolding f unfolding row_wells row_scans by simp
  show ?thesis using row_disjoint n g1 g2 g3 1 2 3 by blast
qed

section \<open>The translation of the wells\<close>

lemma fill_lookup_length: "length (fill_lookup cs i table) = length table"
  by (induction cs arbitrary: i table) simp_all

lemma fill_lookup_nth:
  "distinct cs \<Longrightarrow> \<forall>c \<in> set cs. 0 \<le> c \<and> c < int (length table) \<Longrightarrow> p < length table \<Longrightarrow>
   fill_lookup cs i table ! p =
     (if int p \<in> set cs then int (i + index_of cs (int p)) else table ! p)"
proof (induction cs arbitrary: i table)
  case Nil
  show ?case by simp
next
  case (Cons c cs)
  let ?t = "table[nat c := int i]"
  have c: "0 \<le> c" "c < int (length table)" using Cons.prems(2) by simp_all
  have step: "fill_lookup (c # cs) i table = fill_lookup cs (Suc i) ?t"
    using c by simp
  have ih: "fill_lookup cs (Suc i) ?t ! p =
      (if int p \<in> set cs then int (Suc i + index_of cs (int p)) else ?t ! p)"
    using Cons.prems by (intro Cons.IH) simp_all
  have eq: "fill_lookup (c # cs) i table ! p =
      (if int p \<in> set cs then int (Suc i + index_of cs (int p)) else ?t ! p)"
    by (simp only: step ih)
  show ?case
  proof (cases "int p \<in> set cs")
    case True
    then have "c \<noteq> int p" using Cons.prems(1) by auto
    then show ?thesis unfolding eq using True by simp
  next
    case False
    show ?thesis
    proof (cases "c = int p")
      case True
      then have "nat c = p" by simp
      then show ?thesis unfolding eq using False True Cons.prems(3) by simp
    next
      case ne: False
      then have "nat c \<noteq> p" using c by auto
      then show ?thesis unfolding eq using False ne by simp
    qed
  qed
qed

text \<open>
  For a grid as it should be, the lookup holds, at every cartesian index of the box, the
  position of that index in \<^verbatim>\<open>globalCell()\<close>, and -1 where there is none.
\<close>

lemma cartesian_to_compressed_lookup:
  assumes "grid_ok g"
  shows "\<exists>table. cartesian_to_compressed g = Inr table \<and> int (length table) = box_size g
           \<and> (\<forall>c. 0 \<le> c \<and> c < box_size g \<longrightarrow> table ! nat c = lookup_id g c)"
proof -
  let ?init = "replicate (nat (box_size g)) (- 1 :: int)"
  let ?t = "fill_lookup (globalCell g) 0 ?init"
  have size: "0 \<le> box_size g" and d: "distinct (globalCell g)"
    and inside: "\<forall>c \<in> set (globalCell g). 0 \<le> c \<and> c < int (length ?init)"
    using assms by (simp_all add: grid_ok_def)
  have t: "cartesian_to_compressed g = Inr ?t"
    using size by (simp add: cartesian_to_compressed_def)
  have len: "int (length ?t) = box_size g"
    using size by (simp add: fill_lookup_length)
  have "?t ! nat c = lookup_id g c" if "0 \<le> c \<and> c < box_size g" for c
  proof -
    have p: "nat c < length ?init" using that by simp
    have "?t ! nat c =
        (if int (nat c) \<in> set (globalCell g) then int (0 + index_of (globalCell g) (int (nat c)))
         else ?init ! nat c)"
      using d inside p by (rule fill_lookup_nth)
    then show ?thesis using that by (simp add: lookup_id_def)
  qed
  then show ?thesis using t len by blast
qed

lemma lookup_id_minus:
  "lookup_id g c = - 1 \<longleftrightarrow> c \<notin> set (globalCell g)"
  by (simp add: lookup_id_def)

lemma translate_cells_pass:
  assumes "int (length table) = box_size g"
    and "\<forall>c. 0 \<le> c \<and> c < box_size g \<longrightarrow> table ! nat c = lookup_id g c"
    and "\<forall>c \<in> set cells. 0 \<le> c \<and> c < box_size g \<and> (assertions \<longrightarrow> c \<in> set (globalCell g))"
  shows "translate_cells assertions table cells acc =
     Inr (fold (\<lambda>cell acc. insert_id (lookup_id g cell) acc) cells acc)"
  using assms(3)
proof (induction cells arbitrary: acc)
  case Nil
  show ?case by simp
next
  case (Cons c cells)
  have c: "0 \<le> c" "c < box_size g" "assertions \<longrightarrow> c \<in> set (globalCell g)"
    using Cons.prems by simp_all
  have v: "table ! nat c = lookup_id g c" using assms(2) c by simp
  have ok: "\<not> (assertions \<and> lookup_id g c = - 1)"
    using c(3) by (simp add: lookup_id_minus)
  have rest: "translate_cells assertions table cells (insert_id (lookup_id g c) acc) =
      Inr (fold (\<lambda>cell acc. insert_id (lookup_id g cell) acc) cells
             (insert_id (lookup_id g c) acc))"
    using Cons.prems by (intro Cons.IH) simp
  show ?case
    using c(1,2) ok by (simp add: assms(1) v rest Let_def)
qed

lemma translate_cells_stop:
  assumes "int (length table) = box_size g"
    and "\<forall>c. 0 \<le> c \<and> c < box_size g \<longrightarrow> table ! nat c = lookup_id g c"
    and "\<forall>c \<in> set cs1. 0 \<le> c \<and> c < box_size g \<and> (assertions \<longrightarrow> c \<in> set (globalCell g))"
    and "c \<notin> set (globalCell g)"
    and "assertions \<or> c < 0 \<or> box_size g \<le> c"
  shows "translate_cells assertions table (cs1 @ c # cs2) acc =
     Inl (if 0 \<le> c \<and> c < box_size g then AssertionFailure else OutOfRange)"
  using assms(3)
proof (induction cs1 arbitrary: acc)
  case Nil
  show ?case
  proof (cases "0 \<le> c \<and> c < box_size g")
    case True
    then have "table ! nat c = - 1"
      using assms(2,4) by (simp add: lookup_id_minus)
    moreover have assertions using True assms(5) by auto
    ultimately show ?thesis using True by (simp add: assms(1) Let_def)
  next
    case False
    then show ?thesis by (auto simp: assms(1))
  qed
next
  case (Cons d cs1)
  have d: "0 \<le> d" "d < box_size g" "assertions \<longrightarrow> d \<in> set (globalCell g)"
    using Cons.prems by simp_all
  have v: "table ! nat d = lookup_id g d" using assms(2) d by simp
  have ok: "\<not> (assertions \<and> lookup_id g d = - 1)"
    using d(3) by (simp add: lookup_id_minus)
  have rest: "translate_cells assertions table (cs1 @ c # cs2) (insert_id (lookup_id g d) acc) =
      Inl (if 0 \<le> c \<and> c < box_size g then AssertionFailure else OutOfRange)"
    using Cons.prems by (intro Cons.IH) simp
  show ?case
    using d(1,2) ok by (simp add: assms(1) v rest Let_def)
qed

lemma addWells_loop_append:
  assumes "int (length table) = box_size (grid gog)"
    and "\<forall>c. 0 \<le> c \<and> c < box_size (grid gog) \<longrightarrow> table ! nat c = lookup_id (grid gog) c"
    and "\<forall>w \<in> set ws1. \<forall>c \<in> set (snd w).
           0 \<le> c \<and> c < box_size (grid gog) \<and> (assertions \<longrightarrow> c \<in> set (globalCell (grid gog)))"
  shows "addWells_loop assertions table (ws1 @ ws2) check g0 =
     (case addWell_each (map (\<lambda>w. compressed_ids (grid gog) (snd w)) ws1) check g0 of
        Inl e \<Rightarrow> Inl e
      | Inr g1 \<Rightarrow> addWells_loop assertions table ws2 check g1)"
  using assms(3)
proof (induction ws1 arbitrary: g0)
  case Nil
  show ?case by simp
next
  case (Cons w ws)
  have t: "translate_cells assertions table (snd w) [] = Inr (compressed_ids (grid gog) (snd w))"
    unfolding compressed_ids_def
    using assms(1,2) Cons.prems by (intro translate_cells_pass) simp_all
  have ih: "addWells_loop assertions table (ws @ ws2) check g =
     (case addWell_each (map (\<lambda>w. compressed_ids (grid gog) (snd w)) ws) check g of
        Inl e \<Rightarrow> Inl e
      | Inr g1 \<Rightarrow> addWells_loop assertions table ws2 check g1)" for g
    using Cons.prems by (intro Cons.IH) simp
  show ?case
    by (simp add: t ih split: sum.splits)
qed

lemma index_of_nth:
  "c \<in> set xs \<Longrightarrow> index_of xs c < length xs \<and> xs ! index_of xs c = c"
  by (induction xs) auto

lemma insert_id_sorted:
  "sorted xs \<and> distinct xs \<Longrightarrow> sorted (insert_id x xs) \<and> distinct (insert_id x xs)"
  by (simp add: insert_id_def sorted_insort distinct_insort)

lemma fold_insert_id:
  "sorted acc \<and> distinct acc \<Longrightarrow>
   sorted (fold (\<lambda>c a. insert_id (f c) a) cells acc)
   \<and> distinct (fold (\<lambda>c a. insert_id (f c) a) cells acc)
   \<and> set (fold (\<lambda>c a. insert_id (f c) a) cells acc) = f ` set cells \<union> set acc"
proof (induction cells arbitrary: acc)
  case Nil
  then show ?case by simp
next
  case (Cons c cells)
  have "sorted (insert_id (f c) acc) \<and> distinct (insert_id (f c) acc)"
    using Cons.prems by (rule insert_id_sorted)
  then show ?case using Cons.IH [of "insert_id (f c) acc"] by (simp add: set_insert_id)
qed

lemma compressed_ids_set:
  "sorted (compressed_ids g cells) \<and> distinct (compressed_ids g cells)
   \<and> set (compressed_ids g cells) = lookup_id g ` set cells"
  unfolding compressed_ids_def using fold_insert_id [of "[]" "lookup_id g" cells] by simp

lemma compressed_ids_active:
  assumes "\<forall>c \<in> set cells. c \<in> set (globalCell g)"
  shows "sorted (compressed_ids g cells) \<and> distinct (compressed_ids g cells)
   \<and> set (compressed_ids g cells) = (\<lambda>c. int (index_of (globalCell g) c)) ` set cells
   \<and> (\<forall>c \<in> set cells. index_of (globalCell g) c < length (globalCell g)
         \<and> globalCell g ! index_of (globalCell g) c = c)"
proof -
  have "lookup_id g ` set cells = (\<lambda>c. int (index_of (globalCell g) c)) ` set cells"
    using assms by (intro image_cong) (simp_all add: lookup_id_def)
  then show ?thesis using assms compressed_ids_set [of g cells] by (simp add: index_of_nth)
qed

lemma addWells_loop_pass:
  assumes "int (length table) = box_size (grid gog)"
    and "\<forall>c. 0 \<le> c \<and> c < box_size (grid gog) \<longrightarrow> table ! nat c = lookup_id (grid gog) c"
    and "\<forall>w \<in> set ws. \<forall>c \<in> set (snd w).
           0 \<le> c \<and> c < box_size (grid gog) \<and> (assertions \<longrightarrow> c \<in> set (globalCell (grid gog)))"
  shows "addWells_loop assertions table ws check g0 =
     addWell_each (map (\<lambda>w. compressed_ids (grid gog) (snd w)) ws) check g0"
proof -
  have "addWells_loop assertions table (ws @ []) check g0 =
     (case addWell_each (map (\<lambda>w. compressed_ids (grid gog) (snd w)) ws) check g0 of
        Inl e \<Rightarrow> Inl e
      | Inr g1 \<Rightarrow> addWells_loop assertions table [] check g1)"
    using assms by (rule addWells_loop_append)
  then show ?thesis by (simp split: sum.splits)
qed


text \<open>
  The product of the sizes wraps around: a box of \<open>2 ^ 32\<close> cells has a lookup without any
  entry, so that every index is outside of it, and for a box whose size comes out
  negative the lookup cannot be built.
\<close>

lemma box_size_wraps:
  "box_size (grid wide_graph) = 0
   \<and> addFutureConnectionWells True wide_graph [(''PROD'', [0])] True = Inl OutOfRange
   \<and> box_size (grid negative_graph) = - 2147479015
   \<and> addFutureConnectionWells True negative_graph [(''PROD'', [0])] True = Inl LengthError"
  by (simp add: box_size_def wrap_int_def wide_graph_def negative_graph_def
      addFutureConnectionWells_def cartesian_to_compressed_def)

lemma square_table: "cartesian_to_compressed (grid square_graph) = Inr [0, 1, 2, 3]"
  by (simp add: cartesian_to_compressed_def box_size_def wrap_int_def square_graph_def
      eval_nat_numeral)

lemma gap_table: "cartesian_to_compressed (grid gap_graph) = Inr [0, 1, - 1, 2]"
  by (simp add: cartesian_to_compressed_def box_size_def wrap_int_def gap_graph_def
      eval_nat_numeral)


lemma gap_grid:
  "globalCell (grid gap_graph) = [0, 1, 3]" "box_size (grid gap_graph) = 4"
  by (simp_all add: gap_graph_def box_size_def wrap_int_def)

lemma gap_grid_ok: "grid_ok (grid gap_graph)"
  by (simp add: grid_ok_def gap_grid)

lemma gap_ids:
  "compressed_ids (grid gap_graph) [1, 3] = [1, 2]"
  "compressed_ids (grid gap_graph) [2, 3] = [- 1, 2]"
  by (simp_all add: compressed_ids_def lookup_id_def gap_grid insert_id_def)

lemma gap_addWell: "\<exists>g1. addWell_each [[1, 2]] True gap_graph = Inr g1 \<and> wells g1 = [[1, 2]]"
  by (simp add: addWell_def gap_graph_def live_def contractVertices_def unit_vertex_def Let_def)


section \<open>The contraction test of the repository\<close>

text \<open>
  The modelled contraction on the cube gives what the test of the repository requires of
  the code: after \<^verbatim>\<open>contractVertices(0, 1)\<close> seven vertices, vertex 3 with an edge of weight 1
  to 0 and none to 1, vertex 0 with four edges; after \<^verbatim>\<open>contractVertices(0, 2)\<close> six
  vertices, vertex 0 of weight 3 with four edges, of weight 2 to vertex 3 and back, no
  vertex 1, and the vertices 5 and 6 with the same edges, other than those of 7.
\<close>

lemma cube_contracted_once:
  "\<exists>g. contractVertices 0 1 cube_graph = Inr g \<and> gog_size g = 7
      \<and> edgeList g 3 = Inr [(0, 1), (2, 1), (7, 1)]
      \<and> edgeList g 0 = Inr [(2, 1), (3, 1), (4, 1), (5, 1)]"
  by (simp add: contractVertices_def cube_graph_def unit_vertex_def Let_def gog_size_def
      edgeList_def merge_edges_def erase_edge_def add_edge_def redirect_def)

lemma cube_contracted_twice:
  "\<exists>g. contractMany [(0, 1), (0, 2)] cube_graph = Inr g \<and> gog_size g = 6
      \<and> vertexWeight g 0 = Some 3
      \<and> edgeList g 0 = Inr [(3, 2), (4, 1), (5, 1), (6, 1)]
      \<and> edgeList g 3 = Inr [(0, 2), (7, 1)]
      \<and> getVertex g 1 = Inl LogicError
      \<and> edgeList g 5 = edgeList g 6 \<and> edgeList g 5 \<noteq> edgeList g 7"
  by (simp add: contractVertices_def cube_graph_def unit_vertex_def Let_def gog_size_def
      edgeList_def getVertex_def vertexWeight_def merge_edges_def erase_edge_def add_edge_def
      redirect_def)

end
